theory Spec2Isabelle
  imports Complex_Main
begin

section \<open>Python values and errors\<close>

text \<open>
  The analysis engine is Python over numpy. Every exception the modelled code can raise is
  a value of \<open>py_error\<close>; Python integers are \<open>int\<close> or \<open>nat\<close>; a transcript is a
  \<open>string\<close> of ASCII characters, one \<open>char\<close> per code point.

  Floats are modelled at two levels. The samples and frame energies that numpy holds are
  real numbers, and the arithmetic on them is the arithmetic of the source without
  rounding error. The scalar Python floats of the pace statistics, whose printed values
  the specification states, are real numbers that every operation rounds to binary64
  (\<open>fl\<close> below): there a float is a real that \<open>fl\<close> leaves unchanged.
\<close>

datatype py_error = AttributeError | ValueError | ZeroDivisionError | DecodeError | IOError | OverflowError

text \<open>
  Python's true division \<open>a / b\<close> as the exact quotient (the division of
  \<open>get_duration\<close>): raises on a zero divisor.
\<close>

definition py_truediv :: "real \<Rightarrow> real \<Rightarrow> py_error + real" where
  "py_truediv a b = (if b = 0 then Inl ZeroDivisionError else Inr (a / b))"

text \<open>\<open>int(x)\<close> on a float truncates towards zero.\<close>

definition py_int :: "real \<Rightarrow> int" where
  "py_int x = (if 0 \<le> x then \<lfloor>x\<rfloor> else \<lceil>x\<rceil>)"

text \<open>
  Rounding to the nearest integer, a tie going to the even neighbour.
\<close>

definition round_half_even :: "real \<Rightarrow> int" where
  "round_half_even x =
     (let f = \<lfloor>x\<rfloor>; r = x - of_int f
      in if r < 1 / 2 then f
         else if 1 / 2 < r then f + 1
         else if even f then f else f + 1)"

text \<open>
  The binary64 number nearest to a real \<open>x\<close>, ties to even: with \<open>e = floor(log2 |x|)\<close>
  the 53-bit significand is \<open>x / 2 ^ (e - 52)\<close> rounded to an integer. The exponent is
  not bounded, so \<open>fl\<close> is the rounding of IEEE 754 double precision where the result
  neither overflows nor is subnormal (between \<open>2 ^ -1022\<close> and \<open>2 ^ 1024\<close> in
  magnitude); the properties of float results below are stated for durations between
  \<open>2 ^ -900\<close> and \<open>2 ^ 900\<close> seconds and fewer than \<open>2 ^ 53\<close> words, where every
  intermediate value of the source stays in that range and the conversion of the word
  count and of the loop index to a float is exact.
\<close>

definition fl :: "real \<Rightarrow> real" where
  "fl x = (if x = 0 then 0
           else of_int (round_half_even (x / 2 powr (of_int \<lfloor>log 2 \<bar>x\<bar>\<rfloor> - 52)))
                  * 2 powr (of_int \<lfloor>log 2 \<bar>x\<bar>\<rfloor> - 52))"

text \<open>
  Python's \<open>a / b\<close> and \<open>a * b\<close> on floats: the exact result rounded once; the division
  raises on a zero divisor.
\<close>

definition py_float_div :: "real \<Rightarrow> real \<Rightarrow> py_error + real" where
  "py_float_div a b = (if b = 0 then Inl ZeroDivisionError else Inr (fl (a / b)))"

definition py_float_mul :: "real \<Rightarrow> real \<Rightarrow> real" where
  "py_float_mul a b = fl (a * b)"

text \<open>
  \<open>round(x, 1)\<close> on a float: the exact value of \<open>x\<close> is rounded to the nearest multiple
  of one tenth, a tie going to the even multiple, and the result is the float nearest to
  that decimal.
\<close>

definition py_round1 :: "real \<Rightarrow> real" where
  "py_round1 x = fl (of_int (round_half_even (x * 10)) / 10)"

text \<open>
  \<open>10 ** y\<close> on a float \<open>y\<close>: Python raises \<open>OverflowError\<close> when the power is out of
  the range of binary64, that is when it would round to \<open>2 ^ 1024\<close> (the power taken as
  correctly rounded). Below that bound the value is kept as a real number, as the numpy
  arithmetic it feeds is: the rounding of the power, down to its underflow to 0.0 for a
  very low exponent, is not modelled.
\<close>

definition py_pow10 :: "real \<Rightarrow> py_error + real" where
  "py_pow10 y = (if 2 ^ 1024 - 2 ^ 970 \<le> 10 powr y then Inl OverflowError else Inr (10 powr y))"

section \<open>Transcripts: \<open>str.split()\<close> and \<open>str.lower()\<close>\<close>

text \<open>The ASCII characters for which \<open>str.isspace\<close> holds: 9 to 13, 28 to 31 and 32.\<close>

definition is_space :: "char \<Rightarrow> bool" where
  "is_space c = (let n = of_char c :: nat in (9 \<le> n \<and> n \<le> 13) \<or> (28 \<le> n \<and> n \<le> 32))"

text \<open>
  \<open>transcript.split()\<close> with no argument: the maximal runs of non-whitespace
  characters, in order; never an empty token. \<open>cur\<close> is the token being read, reversed.
\<close>

fun split_acc :: "string \<Rightarrow> string \<Rightarrow> string list" where
  "split_acc cur [] = (if cur = [] then [] else [rev cur])"
| "split_acc cur (c # cs) =
     (if is_space c then (if cur = [] then split_acc [] cs else rev cur # split_acc [] cs)
      else split_acc (c # cur) cs)"

definition py_split :: "string \<Rightarrow> string list" where
  "py_split s = split_acc [] s"

section \<open>Speech metrics: the pace curve\<close>

text \<open>
  The points of the response (models/schemas.py), which the analyzer builds as
  dictionaries. Both kinds of point have a field \<open>time\<close>: written alone it is the one
  of \<open>pace_point\<close>, and the one of an emphasis point is \<open>emphasis_point.time\<close>.
\<close>

record emphasis_point =
  time :: real
  intensity :: real

record pace_point =
  time :: real
  words_per_minute :: real

text \<open>
  The body of the \<open>for i in range(num_points)\<close> loop of \<open>analyze_pace\<close>: one point.
  Each arithmetic operation is a float operation; both divisions can raise.
\<close>

definition pace_point_at :: "nat \<Rightarrow> real \<Rightarrow> int \<Rightarrow> nat \<Rightarrow> py_error + pace_point" where
  "pace_point_at word_count duration num_points i =
     (case (if num_points > 1
            then py_float_div (py_float_mul (real i) duration) (of_int (num_points - 1))
            else Inr 0) of
        Inl e \<Rightarrow> Inl e
      | Inr time_point \<Rightarrow>
          (case py_float_div (real word_count) duration of
             Inl e \<Rightarrow> Inl e
           | Inr q \<Rightarrow>
               Inr \<lparr>time = py_round1 time_point,
                    words_per_minute = py_round1 (py_float_mul q 60)\<rparr>))"

text \<open>The loop: points are appended in order; the first exception ends the call.\<close>

fun pace_loop :: "nat \<Rightarrow> real \<Rightarrow> int \<Rightarrow> nat list \<Rightarrow> pace_point list \<Rightarrow> py_error + pace_point list" where
  "pace_loop word_count duration num_points [] pace_points = Inr pace_points"
| "pace_loop word_count duration num_points (i # is) pace_points =
     (case pace_point_at word_count duration num_points i of
        Inl e \<Rightarrow> Inl e
      | Inr p \<Rightarrow> pace_loop word_count duration num_points is (pace_points @ [p]))"

definition analyze_pace :: "string \<Rightarrow> real \<Rightarrow> py_error + pace_point list" where
  "analyze_pace transcript duration =
     (let words = py_split transcript;
          word_count = length words
      in if duration \<le> 0 \<or> word_count = 0
         then Inr [\<lparr>time = 0, words_per_minute = 0\<rparr>]
         else (case py_float_div duration 10 of
                 Inl e \<Rightarrow> Inl e
               | Inr q \<Rightarrow>
                   (let num_points = min 10 (max 1 (py_int q))
                    in pace_loop word_count duration num_points [0..<nat num_points] [])))"


text \<open>
  The number of points the spec names, \<open>clamp(floor(duration / 10), 1, 10)\<close>, the
  quotient being the float quotient.
\<close>

definition num_points_of :: "real \<Rightarrow> int" where
  "num_points_of d = min 10 (max 1 \<lfloor>fl (d / 10)\<rfloor>)"

section \<open>Speech metrics: filler words\<close>

text \<open>The ASCII characters the regular expression class \<open>\w\<close> accepts: digits, letters, underscore.\<close>

definition is_word_char :: "char \<Rightarrow> bool" where
  "is_word_char c =
     (let n = of_char c :: nat
      in (48 \<le> n \<and> n \<le> 57) \<or> (65 \<le> n \<and> n \<le> 90) \<or> n = 95 \<or> (97 \<le> n \<and> n \<le> 122))"

text \<open>\<open>str.lower()\<close> on ASCII: the capital letters move to the small ones.\<close>

definition py_lower_char :: "char \<Rightarrow> char" where
  "py_lower_char c =
     (let n = of_char c :: nat in if 65 \<le> n \<and> n \<le> 90 then char_of (n + 32) else c)"

definition py_lower :: "string \<Rightarrow> string" where
  "py_lower s = map py_lower_char s"

text \<open>
  The regular expression anchor \<open>\b\<close> at position \<open>i\<close> of \<open>s\<close>: exactly one of the
  characters before and after the position is a word character (the outside of the
  string counts as a non-word character).
\<close>

definition at_word_boundary :: "string \<Rightarrow> nat \<Rightarrow> bool" where
  "at_word_boundary s i =
     ((0 < i \<and> i \<le> length s \<and> is_word_char (s ! (i - 1))) \<noteq> (i < length s \<and> is_word_char (s ! i)))"

text \<open>The pattern \<open>\b + re.escape(word) + \b\<close> matches at position \<open>i\<close>.\<close>

definition match_word_at :: "string \<Rightarrow> string \<Rightarrow> nat \<Rightarrow> bool" where
  "match_word_at word s i =
     (at_word_boundary s i \<and> take (length word) (drop i s) = word
      \<and> at_word_boundary s (i + length word))"

text \<open>
  \<open>len(re.findall(pattern, s))\<close>: the scan goes from left to right and a match is
  counted where it is found; the search resumes at the end of the match (one position
  further after an empty match), so matches never overlap.
\<close>

function findall_count :: "string \<Rightarrow> string \<Rightarrow> nat \<Rightarrow> nat" where
  "findall_count word s pos =
     (if length s < pos then 0
      else if match_word_at word s pos
           then 1 + findall_count word s (pos + max 1 (length word))
           else findall_count word s (pos + 1))"
  by pat_completeness auto
termination
  by (relation "measure (\<lambda>(word, s, pos). Suc (length s) - pos)") auto

declare findall_count.simps [simp del]

record filler =
  word :: string
  count :: nat

definition filler_words :: "string list" where
  "filler_words = [''um'', ''uh'', ''like'', ''you know'', ''so'']"

text \<open>The loop of \<open>detect_fillers\<close> over the lexicon, appending the words found.\<close>

fun fillers_loop :: "string \<Rightarrow> string list \<Rightarrow> filler list \<Rightarrow> filler list" where
  "fillers_loop transcript [] fillers = fillers"
| "fillers_loop transcript (w # ws) fillers =
     (let count = findall_count w (py_lower transcript) 0
      in fillers_loop transcript ws
           (if count > 0 then fillers @ [\<lparr>word = w, count = count\<rparr>] else fillers))"

definition detect_fillers :: "string \<Rightarrow> filler list" where
  "detect_fillers transcript = fillers_loop transcript filler_words []"

text \<open>\<open>total_fillers = sum(fw['count'] for fw in filler_words)\<close> in \<open>analyze_audio\<close>.\<close>

definition total_fillers :: "filler list \<Rightarrow> nat" where
  "total_fillers fs = sum_list (map count fs)"

text \<open>
  The count the spec words: the positions where the word stands in the transcript,
  letter case ignored, as a whole token: no word character right before it and none
  right after it.
\<close>

definition whole_word_at :: "string \<Rightarrow> string \<Rightarrow> nat \<Rightarrow> bool" where
  "whole_word_at w s i =
     (i + length w \<le> length s
      \<and> map py_lower_char (take (length w) (drop i s)) = w
      \<and> (i = 0 \<or> \<not> is_word_char (s ! (i - 1)))
      \<and> (i + length w = length s \<or> \<not> is_word_char (s ! (i + length w))))"

definition whole_word_count :: "string \<Rightarrow> string \<Rightarrow> nat" where
  "whole_word_count w s = length (filter (whole_word_at w s) [0..<Suc (length s)])"

section \<open>numpy floats\<close>

text \<open>
  numpy arithmetic does not raise on a zero divisor: it returns an infinity or NaN.
  Where the source divides arrays, the results are values of \<open>np_float\<close>.
\<close>

datatype np_float = Finite real | PosInf | NegInf | NaN

fun is_finite :: "np_float \<Rightarrow> bool" where
  "is_finite (Finite x) = True"
| "is_finite v = False"

text \<open>\<open>x / y\<close> on finite numpy floats.\<close>

definition np_divide :: "real \<Rightarrow> real \<Rightarrow> np_float" where
  "np_divide x y =
     (if y = 0 then (if x = 0 then NaN else if 0 < x then PosInf else NegInf)
      else Finite (x / y))"

text \<open>\<open>v * c\<close> for a finite constant \<open>c\<close>.\<close>

fun np_times :: "np_float \<Rightarrow> real \<Rightarrow> np_float" where
  "np_times (Finite x) c = Finite (x * c)"
| "np_times NaN c = NaN"
| "np_times PosInf c = (if 0 < c then PosInf else if c < 0 then NegInf else NaN)"
| "np_times NegInf c = (if 0 < c then NegInf else if c < 0 then PosInf else NaN)"

text \<open>\<open>np.mean\<close> and \<open>np.std\<close> (the population standard deviation) of finite values.\<close>

definition np_mean :: "real list \<Rightarrow> real" where
  "np_mean xs = sum_list xs / real (length xs)"

definition np_std :: "real list \<Rightarrow> real" where
  "np_std xs = sqrt (np_mean (map (\<lambda>x. (x - np_mean xs)\<^sup>2) xs))"

section \<open>The audio processor\<close>

record audio_processor =
  sample_rate :: int

text \<open>\<open>AudioProcessor()\<close>: the constructor's default sample rate.\<close>

definition AudioProcessor :: audio_processor where
  "AudioProcessor = \<lparr>sample_rate = 16000\<rparr>"

text \<open>\<open>get_duration\<close>: \<open>len(audio) / self.sample_rate\<close>, a Python division.\<close>

definition get_duration :: "audio_processor \<Rightarrow> real list \<Rightarrow> py_error + real" where
  "get_duration self audio = py_truediv (real (length audio)) (of_int (sample_rate self))"

text \<open>
  \<open>librosa.feature.rms(...)[0]\<close> is library code: it cuts the signal into windows of
  \<open>frame_length\<close> samples, one every \<open>hop_length\<close> samples, and returns for each
  window the square root of the mean of its squared samples. The model takes the windows
  as they are cut and computes the row of values.
\<close>

definition frame_rms :: "real list \<Rightarrow> real" where
  "frame_rms window = sqrt (np_mean (map (\<lambda>x. x\<^sup>2) window))"

definition librosa_rms :: "real list list \<Rightarrow> real list" where
  "librosa_rms frames = map frame_rms frames"

text \<open>
  \<open>extract_intensity\<close>. \<open>np.max\<close> raises \<open>ValueError\<close> on an empty array. The
  conditional expression evaluates \<open>np.max(rms) > 0\<close> first and divides only then.
\<close>

definition extract_intensity :: "real list list \<Rightarrow> py_error + np_float list" where
  "extract_intensity frames =
     (let rms = librosa_rms frames
      in if rms = [] then Inl ValueError
         else if Max (set rms) > 0
              then Inr (map (\<lambda>r. np_times (np_divide r (Max (set rms))) 100) rms)
              else Inr (map Finite rms))"

text \<open>
  \<open>detect_silence\<close>. \<open>rms_db\<close> is the row \<open>librosa.amplitude_to_db\<close> returns for the
  frame energies (library code). \<open>librosa.frames_to_time\<close> gives frame \<open>i\<close> the time
  \<open>i * hop_length / sr\<close> with \<open>hop_length = 512\<close>; the sample rate is positive.
\<close>

definition frames_to_time :: "audio_processor \<Rightarrow> nat \<Rightarrow> real" where
  "frames_to_time self i = real (i * 512) / of_int (sample_rate self)"

text \<open>
  The loop over \<open>enumerate(silent_frames)\<close>; the state is
  \<open>(silent_segments, in_silence, start_time)\<close> and \<open>frame_time i\<close> is the source's
  \<open>times[i]\<close>.
\<close>

fun silence_loop ::
  "(nat \<Rightarrow> real) \<Rightarrow> nat \<Rightarrow> bool list \<Rightarrow> (real \<times> real) list \<times> bool \<times> real
     \<Rightarrow> (real \<times> real) list \<times> bool \<times> real" where
  "silence_loop frame_time i [] st = st"
| "silence_loop frame_time i (is_silent # rest) (silent_segments, in_silence, start_time) =
     silence_loop frame_time (i + 1) rest
       (if is_silent \<and> \<not> in_silence then (silent_segments, True, frame_time i)
        else if \<not> is_silent \<and> in_silence
             then (silent_segments @ [(start_time, frame_time i)], False, start_time)
             else (silent_segments, in_silence, start_time))"

definition detect_silence :: "audio_processor \<Rightarrow> real list \<Rightarrow> real \<Rightarrow> (real \<times> real) list" where
  "detect_silence self rms_db threshold_db =
     (let silent_frames = map (\<lambda>v. v < threshold_db) rms_db;
          frame_time = frames_to_time self
      in case silence_loop frame_time 0 silent_frames ([], False, 0) of
           (silent_segments, in_silence, start_time) \<Rightarrow>
             if in_silence
             then silent_segments @ [(start_time, frame_time (length silent_frames - 1))]
             else silent_segments)"

text \<open>
  The number of frames below the threshold at the end of the clip: the length of the
  silence the clip ends in, 0 when the last frame is not silent.
\<close>

definition trailing_silent_frames :: "real list \<Rightarrow> real \<Rightarrow> nat" where
  "trailing_silent_frames rms_db threshold_db =
     length (takeWhile (\<lambda>v. v < threshold_db) (rev rms_db))"

text \<open>
  \<open>normalize_audio\<close>. The RMS is computed first, by numpy, which does not raise; the
  target RMS \<open>10 ** (target_db / 20)\<close> is a Python power and raises when it overflows,
  before the gain is chosen. On an empty clip \<open>np.mean\<close> is NaN, \<open>rms > 0\<close> is false
  and the gain is 1; the model's mean of no values is 0, with the same gain.
\<close>

definition normalize_audio :: "real list \<Rightarrow> real \<Rightarrow> py_error + real list" where
  "normalize_audio audio target_db =
     (let rms = sqrt (np_mean (map (\<lambda>x. x\<^sup>2) audio))
      in case py_pow10 (target_db / 20) of
           Inl e \<Rightarrow> Inl e
         | Inr target_rms \<Rightarrow>
             (let gain = (if rms > 0 then target_rms / rms else 1)
              in Inr (map (\<lambda>x. x * gain) audio)))"

text \<open>
  The invariant of the loop of \<open>detect_silence\<close> before frame \<open>i\<close>: the closed segments
  are proper, end before the time of frame \<open>i\<close> and follow one another; an open segment
  started at an earlier frame, after every closed segment.
\<close>

definition silence_inv :: "(nat \<Rightarrow> real) \<Rightarrow> nat \<Rightarrow> (real \<times> real) list \<times> bool \<times> real \<Rightarrow> bool" where
  "silence_inv frame_time i st =
     (case st of (silent_segments, in_silence, start_time) \<Rightarrow>
        (\<forall>p \<in> set silent_segments. fst p < snd p \<and> snd p < frame_time i)
      \<and> sorted_wrt (\<lambda>p q. snd p < fst q) silent_segments
      \<and> (in_silence \<longrightarrow>
           (\<exists>j < i. start_time = frame_time j)
         \<and> (\<forall>p \<in> set silent_segments. snd p < start_time)))"

section \<open>Loading a clip\<close>

text \<open>
  \<open>load_audio\<close> calls the decoders of librosa and pydub and creates a temporary file.
  The outcome of each external call is given by the environment; the files that exist
  are the state. \<open>tmp_file\<close> is what \<open>NamedTemporaryFile(suffix='.wav', delete=False)\<close>
  does: it fails, or creates a file and gives its path.
\<close>

record 'seg decoders =
  librosa_load :: "string \<Rightarrow> py_error + real list"
  from_file :: "string \<Rightarrow> py_error + 'seg"
  tmp_file :: "py_error + string"
  segment_export :: "'seg \<Rightarrow> string \<Rightarrow> py_error + unit"

text \<open>
  The \<open>with\<close> block closes the temporary file and, with \<open>delete=False\<close>, leaves it on
  disk; the \<open>try ... finally\<close> that removes it only surrounds the second
  \<open>librosa.load\<close>.
\<close>

definition load_audio ::
  "'seg decoders \<Rightarrow> string \<Rightarrow> string set \<Rightarrow> (py_error + real list) \<times> string set" where
  "load_audio env file_path files =
     (case librosa_load env file_path of
        Inr audio \<Rightarrow> (Inr audio, files)
      | Inl e \<Rightarrow>
          (case from_file env file_path of
             Inl e1 \<Rightarrow> (Inl e1, files)
           | Inr audio_segment \<Rightarrow>
               (case tmp_file env of
                  Inl e2 \<Rightarrow> (Inl e2, files)
                | Inr tmp_path \<Rightarrow>
                    (let files1 = insert tmp_path files
                     in case segment_export env audio_segment tmp_path of
                          Inl e3 \<Rightarrow> (Inl e3, files1)
                        | Inr u \<Rightarrow>
                            (librosa_load env tmp_path,
                             if tmp_path \<in> files1 then files1 - {tmp_path} else files1)))))"

section \<open>Speech metrics: emphasis\<close>

text \<open>
  The class \<open>SpeechAnalyzer\<close> has no \<open>__init__\<close> and no class attribute: an instance
  has the attribute \<open>audio_processor\<close> only if it was assigned from outside.
  \<open>SpeechAnalyzer\<close> is the instance the constructor returns, as main.py creates it.
\<close>

record speech_analyzer =
  audio_processor :: "audio_processor option"

definition SpeechAnalyzer :: speech_analyzer where
  "SpeechAnalyzer = \<lparr>audio_processor = None\<rparr>"

text \<open>\<open>np.linspace(start, stop, num)\<close> with the end point included.\<close>

definition np_linspace :: "real \<Rightarrow> real \<Rightarrow> nat \<Rightarrow> real list" where
  "np_linspace start stop num =
     (if num = 1 then [start]
      else map (\<lambda>i. start + real i * ((stop - start) / real (num - 1))) [0..<num])"

fun the_finite :: "np_float \<Rightarrow> real" where
  "the_finite (Finite x) = x"
| "the_finite v = 0"

text \<open>
  Lines 65 to 80 of \<open>analyze_emphasis\<close>, from the array \<open>intensity\<close> on (here
  \<open>intensity_curve\<close>). When the array is empty
  or holds a NaN or an infinity, \<open>np.mean(intensity) + np.std(intensity)\<close> is NaN, no
  comparison with it holds and no point is appended.
\<close>

definition emphasis_from_intensity :: "np_float list \<Rightarrow> real \<Rightarrow> emphasis_point list" where
  "emphasis_from_intensity intensity_curve duration =
     (let emphasis_points =
            (if intensity_curve \<noteq> [] \<and> list_all is_finite intensity_curve
             then (let values = map the_finite intensity_curve;
                       times = np_linspace 0 duration (length values);
                       threshold = np_mean values + np_std values
                   in map (\<lambda>(t, intens). \<lparr>emphasis_point.time = t, intensity = intens / 100\<rparr>)
                        (filter (\<lambda>(t, intens). intens > threshold) (zip times values)))
             else [])
      in if emphasis_points = []
         then [\<lparr>emphasis_point.time = duration / 2, intensity = 1 / 2\<rparr>]
         else emphasis_points)"

definition analyze_emphasis ::
  "speech_analyzer \<Rightarrow> real list list \<Rightarrow> real \<Rightarrow> py_error + emphasis_point list" where
  "analyze_emphasis self frames duration =
     (case audio_processor self of
        None \<Rightarrow> Inl AttributeError
      | Some processor \<Rightarrow>
          (case extract_intensity frames of
             Inl e \<Rightarrow> Inl e
           | Inr intensity_curve \<Rightarrow> Inr (emphasis_from_intensity intensity_curve duration)))"

section \<open>Properties of rounding\<close>

lemma round_half_even_close: "\<bar>of_int (round_half_even z) - z\<bar> \<le> 1 / 2"
  unfolding round_half_even_def Let_def by (auto simp: abs_if) linarith+

lemma floor_log2_bounds:
  assumes "0 < x"
  shows "2 powr (of_int \<lfloor>log 2 x\<rfloor>) \<le> x" "x < 2 powr (of_int \<lfloor>log 2 x\<rfloor> + 1)"
proof -
  have "of_int \<lfloor>log 2 x\<rfloor> \<le> log 2 x" by simp
  then have "2 powr (of_int \<lfloor>log 2 x\<rfloor>) \<le> 2 powr (log 2 x)" by simp
  with assms show "2 powr (of_int \<lfloor>log 2 x\<rfloor>) \<le> x" by simp
  have "log 2 x < of_int \<lfloor>log 2 x\<rfloor> + 1" by linarith
  then have "2 powr (log 2 x) < 2 powr (of_int \<lfloor>log 2 x\<rfloor> + 1)" by simp
  with assms show "x < 2 powr (of_int \<lfloor>log 2 x\<rfloor> + 1)" by simp
qed

lemma floor_log2_eq:
  assumes "2 powr (of_int e) \<le> x" "x < 2 powr (of_int e + 1)"
  shows "\<lfloor>log 2 x\<rfloor> = e"
proof -
  have pos: "0 < x" using assms(1) powr_gt_zero [of 2 "of_int e"] by linarith
  have "of_int e \<le> log 2 x" using assms(1) pos by (simp add: le_log_iff)
  moreover have "log 2 x < of_int e + 1" using assms(2) pos by (simp add: log_less_iff)
  ultimately show ?thesis by linarith
qed

lemma fl_error:
  "\<bar>fl x - x\<bar> \<le> \<bar>x\<bar> / 2 ^ 53"
proof (cases "x = 0")
  case True
  then show ?thesis by (simp add: fl_def)
next
  case False
  define e where "e = \<lfloor>log 2 \<bar>x\<bar>\<rfloor>"
  define u :: real where "u = 2 powr (of_int e - 52)"
  have upos: "0 < u" by (simp add: u_def)
  have flx: "fl x = of_int (round_half_even (x / u)) * u"
    using False by (simp add: fl_def e_def u_def)
  have "\<bar>of_int (round_half_even (x / u)) - x / u\<bar> \<le> 1 / 2" by (rule round_half_even_close)
  then have "\<bar>of_int (round_half_even (x / u)) - x / u\<bar> * u \<le> 1 / 2 * u"
    using upos by (intro mult_right_mono) simp_all
  moreover have "\<bar>of_int (round_half_even (x / u)) - x / u\<bar> * u = \<bar>fl x - x\<bar>"
  proof -
    have "(of_int (round_half_even (x / u)) - x / u) * u = fl x - x"
      using upos by (simp add: flx field_simps)
    then have "\<bar>fl x - x\<bar> = \<bar>of_int (round_half_even (x / u)) - x / u\<bar> * \<bar>u\<bar>"
      by (simp only: abs_mult [symmetric])
    with upos show ?thesis by simp
  qed
  ultimately have err: "\<bar>fl x - x\<bar> \<le> u / 2" by simp
  from False have "2 powr (of_int e) \<le> \<bar>x\<bar>" unfolding e_def by (intro floor_log2_bounds) simp
  moreover have "u = 2 powr (of_int e) / 2 ^ 52"
    by (simp add: u_def powr_diff)
  ultimately have "u / 2 \<le> \<bar>x\<bar> / 2 ^ 53" by (simp add: field_simps)
  with err show ?thesis by linarith
qed

lemma round_half_even_of_int: "round_half_even (of_int k) = k"
  by (simp add: round_half_even_def Let_def)

lemma fl_zero: "fl 0 = 0"
  by (simp add: fl_def)

lemma fl_nonneg: "0 \<le> x \<Longrightarrow> 0 \<le> fl x"
proof -
  assume x: "0 \<le> x"
  have "x / 2 ^ 53 \<le> x" using x by (simp add: field_simps)
  with fl_error [of x] x show ?thesis by (simp add: abs_if split: if_splits)
qed

lemma fl_upper: "0 \<le> x \<Longrightarrow> fl x \<le> x * (1 + 1 / 2 ^ 53)"
  using fl_error [of x] by (simp add: abs_if field_simps split: if_splits)

lemma fl_lower: "0 \<le> x \<Longrightarrow> x * (1 - 1 / 2 ^ 53) \<le> fl x"
  using fl_error [of x] by (simp add: abs_if field_simps split: if_splits)

lemma fl_eval:
  assumes "2 ^ 52 \<le> \<bar>x\<bar> * 2 ^ k" "\<bar>x\<bar> * 2 ^ k < 2 ^ 53"
  shows "fl x = of_int (round_half_even (x * 2 ^ k)) / 2 ^ k"
proof -
  have p: "2 powr (of_int (52 - int k)) = (2::real) ^ 52 / 2 ^ k"
    by (simp add: powr_diff powr_realpow)
  have p1: "2 powr (of_int (52 - int k) + 1) = (2::real) ^ 53 / 2 ^ k"
    by (simp add: powr_diff powr_add powr_realpow)
  from assms have nz: "x \<noteq> 0" by auto
  have lo: "2 powr (of_int (52 - int k)) \<le> \<bar>x\<bar>"
    unfolding p using assms(1) by (simp add: field_simps)
  have hi: "\<bar>x\<bar> < 2 powr (of_int (52 - int k) + 1)"
    unfolding p1 using assms(2) by (simp add: field_simps)
  have e: "\<lfloor>log 2 \<bar>x\<bar>\<rfloor> = 52 - int k" using lo hi by (rule floor_log2_eq)
  have u: "2 powr (of_int (52 - int k) - 52) = 1 / (2::real) ^ k"
    by (simp add: powr_minus powr_realpow field_simps)
  from nz have "fl x = of_int (round_half_even (x / 2 powr (of_int (52 - int k) - 52)))
      * 2 powr (of_int (52 - int k) - 52)"
    by (simp only: fl_def e if_False)
  then show ?thesis by (simp only: u) simp
qed

lemma round_half_even_bounds:
  "of_int (round_half_even z) \<le> z + 1 / 2" "z - 1 / 2 \<le> of_int (round_half_even z)"
  using round_half_even_close [of z] by (simp_all add: abs_if split: if_splits)

lemma round_half_even_nonneg: "0 \<le> z \<Longrightarrow> 0 \<le> round_half_even z"
  by (simp add: round_half_even_def Let_def)

lemma py_round1_zero: "py_round1 0 = 0"
  using round_half_even_of_int [of 0] by (simp add: py_round1_def fl_zero)

lemma py_round1_nonneg: "0 \<le> x \<Longrightarrow> 0 \<le> py_round1 x"
  unfolding py_round1_def by (intro fl_nonneg divide_nonneg_nonneg) (simp_all add: round_half_even_nonneg)

lemma py_round1_upper:
  assumes "0 \<le> x"
  shows "py_round1 x \<le> (x + 1 / 20) * (1 + 1 / 2 ^ 53)"
proof -
  let ?r = "of_int (round_half_even (x * 10)) / 10 :: real"
  have nn: "0 \<le> ?r" using assms by (simp add: round_half_even_nonneg)
  have "?r \<le> x + 1 / 20" using round_half_even_bounds(1) [of "x * 10"] by simp
  then have "?r * (1 + 1 / 2 ^ 53) \<le> (x + 1 / 20) * (1 + 1 / 2 ^ 53)"
    by (rule mult_right_mono) simp
  with fl_upper [OF nn] show ?thesis unfolding py_round1_def by linarith
qed


lemma time_bound_arith:
  fixes d y :: real
  assumes "0 \<le> d" "y \<le> d * (1 + 1 / 2 ^ 53) * (1 + 1 / 2 ^ 53)"
  shows "(y + 1 / 20) * (1 + 1 / 2 ^ 53) \<le> (d + 1 / 20) * (1 + 1 / 2 ^ 51)"
proof -
  let ?e = "1 + 1 / 2 ^ 53 :: real"
  have c: "?e * ?e * ?e \<le> 1 + 1 / 2 ^ 51" by simp
  have "y + 1 / 20 \<le> d * ?e * ?e + 1 / 20" using assms(2) by simp
  then have "(y + 1 / 20) * ?e \<le> (d * ?e * ?e + 1 / 20) * ?e"
    by (rule mult_right_mono) simp
  also have "\<dots> = d * (?e * ?e * ?e) + 1 / 20 * ?e" by (simp add: algebra_simps)
  also have "\<dots> \<le> d * (1 + 1 / 2 ^ 51) + 1 / 20 * (1 + 1 / 2 ^ 51)"
  proof (rule add_mono)
    show "d * (?e * ?e * ?e) \<le> d * (1 + 1 / 2 ^ 51)" by (rule mult_left_mono [OF c assms(1)])
    show "1 / 20 * ?e \<le> 1 / 20 * (1 + 1 / 2 ^ 51)" by simp
  qed
  also have "\<dots> = (d + 1 / 20) * (1 + 1 / 2 ^ 51)" by (simp add: algebra_simps)
  finally show ?thesis .
qed

lemma fl_two_steps:
  assumes a: "0 \<le> a" and c: "0 \<le> c"
  shows "a * c * (1 - 1 / 2 ^ 53) * (1 - 1 / 2 ^ 53) \<le> fl (fl a * c)"
    and "fl (fl a * c) \<le> a * c * (1 + 1 / 2 ^ 53) * (1 + 1 / 2 ^ 53)"
proof -
  let ?lo = "1 - 1 / 2 ^ 53 :: real" and ?hi = "1 + 1 / 2 ^ 53 :: real"
  have z: "0 \<le> fl a * c" using fl_nonneg [OF a] c by simp
  have "a * ?lo * c \<le> fl a * c" by (rule mult_right_mono [OF fl_lower [OF a] c])
  then have "a * ?lo * c * ?lo \<le> fl a * c * ?lo" by (rule mult_right_mono) simp
  with fl_lower [OF z] have "a * ?lo * c * ?lo \<le> fl (fl a * c)" by linarith
  then show "a * c * ?lo * ?lo \<le> fl (fl a * c)" by (simp only: mult.assoc mult.commute [of ?lo c])
  have "fl a * c \<le> a * ?hi * c" by (rule mult_right_mono [OF fl_upper [OF a] c])
  then have "fl a * c * ?hi \<le> a * ?hi * c * ?hi" by (rule mult_right_mono) simp
  with fl_upper [OF z] have "fl (fl a * c) \<le> a * ?hi * c * ?hi" by linarith
  then show "fl (fl a * c) \<le> a * c * ?hi * ?hi" by (simp only: mult.assoc mult.commute [of ?hi c])
qed

lemma py_round1_lower:
  assumes "0 \<le> y"
  shows "(y - 1 / 20) * (1 - 1 / 2 ^ 53) \<le> py_round1 y"
proof -
  let ?r = "of_int (round_half_even (y * 10)) / 10 :: real"
  have nn: "0 \<le> ?r" using assms by (simp add: round_half_even_nonneg)
  have "y - 1 / 20 \<le> ?r" using round_half_even_bounds(2) [of "y * 10"] by simp
  then have "(y - 1 / 20) * (1 - 1 / 2 ^ 53) \<le> ?r * (1 - 1 / 2 ^ 53)"
    by (rule mult_right_mono) simp
  with fl_lower [OF nn] show ?thesis unfolding py_round1_def by linarith
qed

lemma approx_above:
  fixes x t c e :: real
  assumes "t \<le> (x + c) * (1 + e)"
  shows "t - x \<le> c + (x + c) * e"
  using assms by (simp add: algebra_simps)

lemma approx_below:
  fixes x t c e l :: real
  assumes t: "x * (1 - e) - c * l \<le> t" and l: "l \<le> 1" and c: "0 \<le> c" and e: "0 \<le> e"
  shows "x - t \<le> c + (x + c) * e"
proof -
  have "c * l \<le> c * 1" by (rule mult_left_mono [OF l c])
  moreover have "0 \<le> c * e" using c e by (rule mult_nonneg_nonneg)
  moreover have "x * (1 - e) = x - x * e" "(x + c) * e = x * e + c * e" by (simp_all add: algebra_simps)
  ultimately show ?thesis using t by simp
qed

lemma py_round1_approx:
  fixes x y :: real
  assumes x: "0 \<le> x"
    and lo: "x * (1 - 1 / 2 ^ 53) * (1 - 1 / 2 ^ 53) \<le> y"
    and hi: "y \<le> x * (1 + 1 / 2 ^ 53) * (1 + 1 / 2 ^ 53)"
  shows "\<bar>py_round1 y - x\<bar> \<le> 1 / 20 + (x + 1 / 20) / 2 ^ 51"
proof -
  let ?lo = "1 - 1 / 2 ^ 53 :: real"
  have "0 \<le> x * ?lo * ?lo" using x by simp
  with lo have y: "0 \<le> y" by linarith
  have "py_round1 y \<le> (x + 1 / 20) * (1 + 1 / 2 ^ 51)"
    using py_round1_upper [OF y] time_bound_arith [OF x hi] by linarith
  then have "py_round1 y - x \<le> 1 / 20 + (x + 1 / 20) * (1 / 2 ^ 51)"
    by (rule approx_above)
  then have up: "py_round1 y - x \<le> 1 / 20 + (x + 1 / 20) / 2 ^ 51" by simp
  have c: "1 - 1 / 2 ^ 51 \<le> ?lo * ?lo * ?lo" by simp
  have "x * (1 - 1 / 2 ^ 51) \<le> x * (?lo * ?lo * ?lo)" by (rule mult_left_mono [OF c x])
  also have "\<dots> = x * ?lo * ?lo * ?lo" by (simp only: mult.assoc)
  also have "\<dots> \<le> y * ?lo" by (rule mult_right_mono [OF lo]) simp
  finally have "x * (1 - 1 / 2 ^ 51) - 1 / 20 * ?lo \<le> (y - 1 / 20) * ?lo"
    by (simp add: algebra_simps)
  with py_round1_lower [OF y] have "x * (1 - 1 / 2 ^ 51) - 1 / 20 * ?lo \<le> py_round1 y" by linarith
  then have "x - py_round1 y \<le> 1 / 20 + (x + 1 / 20) * (1 / 2 ^ 51)"
    by (rule approx_below) simp_all
  then have dn: "x - py_round1 y \<le> 1 / 20 + (x + 1 / 20) / 2 ^ 51" by simp
  from up dn show ?thesis by (simp add: abs_le_iff)
qed

lemma fl_of_int_exact:
  assumes "\<bar>k\<bar> < 2 ^ 53"
  shows "fl (of_int k) = of_int k"
proof (cases "k = 0")
  case True
  then show ?thesis by (simp add: fl_zero)
next
  case False
  define x where "x = (of_int k :: real)"
  define e where "e = \<lfloor>log 2 \<bar>x\<bar>\<rfloor>"
  from False have "1 \<le> \<bar>k\<bar>" by simp
  then have "(1::real) \<le> of_int \<bar>k\<bar>" by (simp only: of_int_1_le_iff)
  then have x1: "1 \<le> \<bar>x\<bar>" by (simp add: x_def)
  from assms have "(of_int \<bar>k\<bar> :: real) < of_int (2 ^ 53)" by (simp only: of_int_less_iff)
  then have x53: "\<bar>x\<bar> < 2 ^ 53" by (simp add: x_def)
  have nz: "x \<noteq> 0" using x1 by auto
  have "0 \<le> log 2 \<bar>x\<bar>" using x1 by simp
  then have e0: "0 \<le> e" by (simp add: e_def)
  have "\<bar>x\<bar> < 2 powr 53" using x53 by simp
  then have "log 2 \<bar>x\<bar> < 53" using x1 by (simp add: log_less_iff)
  then have "e < 53" unfolding e_def by (simp add: floor_less_iff)
  then have e52: "e \<le> 52" by simp
  define m where "m = nat (52 - e)"
  have "real_of_int e - 52 = - real m" using e52 by (simp add: m_def)
  then have u: "(2::real) powr (of_int e - 52) = 1 / 2 ^ m"
    by (simp add: powr_minus powr_realpow inverse_eq_divide)
  have "x / (1 / 2 ^ m) = of_int (k * 2 ^ m)" by (simp add: x_def)
  then have r: "round_half_even (x / (1 / 2 ^ m)) = k * 2 ^ m"
    by (simp only: round_half_even_of_int)
  from nz have "fl x = of_int (round_half_even (x / 2 powr (of_int e - 52))) * 2 powr (of_int e - 52)"
    by (simp only: fl_def e_def if_False)
  also have "\<dots> = of_int (k * 2 ^ m) * (1 / 2 ^ m)" by (simp only: u r)
  also have "\<dots> = x" by (simp add: x_def)
  finally show ?thesis by (simp only: x_def)
qed

lemma fl_numeral: "(numeral n :: int) < 2 ^ 53 \<Longrightarrow> fl (numeral n) = numeral n"
  using fl_of_int_exact [of "numeral n"] by simp

lemma fl_one: "fl 1 = 1"
  using fl_of_int_exact [of 1] by simp

lemma py_round1_of_int:
  assumes "\<bar>k\<bar> < 2 ^ 53"
  shows "py_round1 (of_int k) = of_int k"
proof -
  have "of_int k * (10::real) = of_int (k * 10)" by simp
  then have "round_half_even (of_int k * 10) = k * 10" by (simp only: round_half_even_of_int)
  then show ?thesis using fl_of_int_exact [OF assms] by (simp add: py_round1_def)
qed

lemma py_round1_numeral: "(numeral n :: int) < 2 ^ 53 \<Longrightarrow> py_round1 (numeral n) = numeral n"
  using py_round1_of_int [of "numeral n"] by simp

section \<open>Properties of the pace curve\<close>

lemma pace_point_at_ok:
  "duration \<noteq> 0 \<Longrightarrow>
   pace_point_at wc duration n i =
     Inr \<lparr>time = py_round1 (if n > 1 then fl (fl (real i * duration) / of_int (n - 1)) else 0),
          words_per_minute = py_round1 (fl (fl (real wc / duration) * 60))\<rparr>"
  by (simp add: pace_point_at_def py_float_div_def py_float_mul_def)

lemma pace_loop_ok:
  "duration \<noteq> 0 \<Longrightarrow>
   pace_loop wc duration n is acc =
     Inr (acc @ map (\<lambda>i. \<lparr>time = py_round1 (if n > 1 then fl (fl (real i * duration) / of_int (n - 1)) else 0),
          words_per_minute = py_round1 (fl (fl (real wc / duration) * 60))\<rparr>) is)"
  by (induction "is" arbitrary: acc) (simp_all add: pace_point_at_ok)

lemma analyze_pace_ok:
  assumes "0 < duration" "py_split transcript \<noteq> []"
  shows "analyze_pace transcript duration =
     Inr (map (\<lambda>i. \<lparr>time = py_round1 (if num_points_of duration > 1
                                      then fl (fl (real i * duration) / of_int (num_points_of duration - 1))
                                      else 0),
          words_per_minute = py_round1 (fl (fl (real (length (py_split transcript)) / duration) * 60))\<rparr>)
        [0..<nat (num_points_of duration)])"
proof -
  have "0 \<le> fl (duration / 10)" using assms(1) by (intro fl_nonneg) simp
  then have "py_int (fl (duration / 10)) = \<lfloor>fl (duration / 10)\<rfloor>" by (simp add: py_int_def)
  with assms show ?thesis
    by (simp add: analyze_pace_def Let_def py_float_div_def pace_loop_ok num_points_of_def)
qed

lemma pace_time_le:
  assumes "0 < (d::real)" "1 < (n::int)" "int i < n"
  shows "real i * d / of_int (n - 1) \<le> d"
proof -
  from assms have "real i \<le> of_int (n - 1)" by linarith
  with assms have "real i * d \<le> of_int (n - 1) * d" by (simp add: mult_right_mono)
  with assms show ?thesis by (simp add: pos_divide_le_eq mult.commute)
qed

lemma pace_time_approx:
  assumes d: "0 < d" and n: "1 < (n::int)"
  shows "\<bar>py_round1 (fl (fl (real i * d) / of_int (n - 1))) - real i * d / of_int (n - 1)\<bar>
           \<le> 1 / 20 + (real i * d / of_int (n - 1) + 1 / 20) / 2 ^ 51"
proof -
  have a: "0 \<le> real i * d" using d by simp
  have c: "0 \<le> 1 / (of_int (n - 1) :: real)" using n by simp
  have x: "0 \<le> real i * d * (1 / of_int (n - 1))" using a c by (rule mult_nonneg_nonneg)
  from py_round1_approx [OF x fl_two_steps [OF a c]] show ?thesis by simp
qed

lemma pace_wpm_approx:
  assumes d: "0 < d"
  shows "\<bar>py_round1 (fl (fl (real wc / d) * 60)) - real wc / d * 60\<bar>
           \<le> 1 / 20 + (real wc / d * 60 + 1 / 20) / 2 ^ 51"
proof -
  have a: "0 \<le> real wc / d" using d by simp
  have c: "0 \<le> (60::real)" by simp
  have x: "0 \<le> real wc / d * 60" by (rule mult_nonneg_nonneg [OF a c])
  from py_round1_approx [OF x fl_two_steps [OF a c]] show ?thesis .
qed

lemma num_points_of_range: "1 \<le> num_points_of d" "num_points_of d \<le> 10"
  by (simp_all add: num_points_of_def)

lemma num_points_of_sandwich:
  assumes "0 \<le> d"
  shows "min 10 (max 1 \<lfloor>d / 10 * (1 - 1 / 2 ^ 53)\<rfloor>) \<le> num_points_of d"
    and "num_points_of d \<le> min 10 (max 1 \<lfloor>d / 10 * (1 + 1 / 2 ^ 53)\<rfloor>)"
proof -
  have nn: "0 \<le> d / 10" using assms by simp
  have "\<lfloor>d / 10 * (1 - 1 / 2 ^ 53)\<rfloor> \<le> \<lfloor>fl (d / 10)\<rfloor>"
    by (rule floor_mono [OF fl_lower [OF nn]])
  then show "min 10 (max 1 \<lfloor>d / 10 * (1 - 1 / 2 ^ 53)\<rfloor>) \<le> num_points_of d"
    unfolding num_points_of_def by linarith
  have "\<lfloor>fl (d / 10)\<rfloor> \<le> \<lfloor>d / 10 * (1 + 1 / 2 ^ 53)\<rfloor>"
    by (rule floor_mono [OF fl_upper [OF nn]])
  then show "num_points_of d \<le> min 10 (max 1 \<lfloor>d / 10 * (1 + 1 / 2 ^ 53)\<rfloor>)"
    unfolding num_points_of_def by linarith
qed

lemma pace_steps:
  assumes "fl (a / d) = q" "fl (q * 60) = p" "py_round1 p = r"
  shows "py_round1 (fl (fl (a / d) * 60)) = r"
  using assms by simp

lemma py_split_replicate_a: "py_split (concat (replicate n ''a '')) = replicate n ''a''"
  by (induction n) (simp_all add: py_split_def is_space_def)

lemma fl_13_2: "fl (13 / 2) = 13 / 2"
  by (subst fl_eval [where k = 50]) (simp_all add: round_half_even_def Let_def)

lemma fl_923_5: "fl (923 / 5) = 6495035087598387 / 35184372088832"
  by (subst fl_eval [where k = 45]) (simp_all add: round_half_even_def Let_def)

lemma wpm_200_65: "py_round1 (fl (fl (200 / 65) * 60)) = fl (923 / 5)"
proof (rule pace_steps)
  show "fl (200 / 65) = 6928614811339225 / 2 ^ 51"
    by (subst fl_eval [where k = 51]) (simp_all add: round_half_even_def Let_def)
  show "fl (6928614811339225 / 2 ^ 51 * 60) = 6495576385630523 / 2 ^ 45"
    by (subst fl_eval [where k = 45]) (simp_all add: round_half_even_def Let_def)
  show "py_round1 (6495576385630523 / 2 ^ 45) = fl (923 / 5)"
    by (simp add: py_round1_def round_half_even_def Let_def)
qed

lemma num_points_of_65: "num_points_of 65 = 6"
  by (simp add: num_points_of_def fl_13_2)

lemma pace_example:
  "analyze_pace (concat (replicate 200 ''a '')) 65 =
     Inr (map (\<lambda>t. \<lparr>time = t, words_per_minute = fl (923 / 5)\<rparr>) [0, 13, 26, 39, 52, 65])"
proof -
  let ?T = "concat (replicate 200 ''a '')"
  have w: "py_split ?T = replicate 200 ''a''" by (rule py_split_replicate_a)
  have wc: "real (length (py_split ?T)) = 200" by (simp add: w)
  have six: "[0..<nat 6] = [0, 1, 2, 3, 4, 5]" by (simp add: upt_conv_Cons eval_nat_numeral)
  have ap: "analyze_pace ?T 65 =
     Inr (map (\<lambda>i. \<lparr>time = py_round1 (if num_points_of 65 > 1
                                      then fl (fl (real i * 65) / of_int (num_points_of 65 - 1))
                                      else 0),
          words_per_minute = py_round1 (fl (fl (real (length (py_split ?T)) / 65) * 60))\<rparr>)
        [0..<nat (num_points_of 65)])"
    by (rule analyze_pace_ok) (simp_all add: w)
  show ?thesis
    unfolding ap wc wpm_200_65 num_points_of_65 six
    by (simp add: fl_numeral fl_zero py_round1_numeral py_round1_zero)
qed

lemma wpm_4_1600: "py_round1 (fl (fl (4 / 1600) * 60)) = fl (1 / 10)"
proof (rule pace_steps)
  show "fl (4 / 1600) = 5764607523034235 / 2 ^ 61"
    by (subst fl_eval [where k = 61]) (simp_all add: round_half_even_def Let_def)
  show "fl (5764607523034235 / 2 ^ 61 * 60) = 5404319552844595 / 2 ^ 55"
    by (subst fl_eval [where k = 55]) (simp_all add: round_half_even_def Let_def)
  show "py_round1 (5404319552844595 / 2 ^ 55) = fl (1 / 10)"
    by (simp add: py_round1_def round_half_even_def Let_def)
qed

lemma fl_1_10: "fl (1 / 10) = 3602879701896397 / 36028797018963968"
  by (subst fl_eval [where k = 56]) (simp_all add: round_half_even_def Let_def)

lemma fl_201_10: "fl (201 / 10) = 2828823515942093 / 140737488355328"
  by (subst fl_eval [where k = 48]) (simp_all add: round_half_even_def Let_def)

lemma fl_321_16: "fl (321 / 16) = 321 / 16"
  by (subst fl_eval [where k = 48]) (simp_all add: round_half_even_def Let_def)

lemma fl_321_160: "fl (321 / 160) = 4517673376206029 / 2251799813685248"
  by (subst fl_eval [where k = 51]) (simp_all add: round_half_even_def Let_def)

lemma num_points_of_321_16: "num_points_of (321 / 16) = 2"
  by (simp add: num_points_of_def fl_321_160)

lemma wpm_1_321_16: "py_round1 (fl (fl (1 / (321 / 16)) * 60)) = 3"
proof (rule pace_steps)
  show "fl (1 / (321 / 16)) = 7183311555182847 / 2 ^ 57"
    by (subst fl_eval [where k = 57]) (simp_all add: round_half_even_def Let_def)
  show "fl (7183311555182847 / 2 ^ 57 * 60) = 6734354582983919 / 2 ^ 51"
    by (subst fl_eval [where k = 51]) (simp_all add: round_half_even_def Let_def)
  show "py_round1 (6734354582983919 / 2 ^ 51) = 3"
    by (simp add: py_round1_def round_half_even_def Let_def fl_numeral)
qed

lemma py_round1_321_16: "py_round1 (321 / 16) = fl (201 / 10)"
  by (simp add: py_round1_def round_half_even_def Let_def)

lemma scale_alg:
  fixes c k :: real
  shows "c + c / k = c * (1 + 1 / k)"
  by (simp add: algebra_simps)

lemma py_split_sentinel:
  "py_split ''Could not request results'' = [''Could'', ''not'', ''request'', ''results'']"
  by (simp add: py_split_def is_space_def)

lemma num_points_of_1600: "num_points_of 1600 = 10"
  by (simp add: num_points_of_def fl_numeral)

text \<open>
  Claim C4, as the code has it. For a transcript with at least one word and a duration
  \<open>d\<close> (between \<open>2 ^ -900\<close> and \<open>2 ^ 900\<close>, fewer than \<open>2 ^ 53\<close> words),
  \<open>analyze_pace\<close> returns \<open>clamp(floor(d / 10), 1, 10)\<close> points, the quotient being
  the float quotient, so between 1 and 10 of them and as many as the exact quotient gives
  up to one rounding of it. The time of point \<open>i\<close> is the float \<open>(i * d) / (numPoints - 1)\<close>
  (0 for a single point) rounded to one decimal: it is within 0.05 of \<open>i * d / (numPoints - 1)\<close>,
  up to a relative error of \<open>2 ^ -51\<close>, and so lies between 0 and \<open>d + 0.05\<close> up to
  that error. Every point carries the float \<open>(wordCount / d) * 60\<close> rounded to one
  decimal, within 0.05 of the exact value up to the same error. A 65 s clip with a
  200-word transcript gives the times 0, 13, 26, 39, 52, 65 and the float nearest to
  184.6 words per minute.
\<close>

theorem analyze_pace_points:
  assumes "1 / 2 ^ 900 \<le> duration" and "duration \<le> 2 ^ 900"
    and "py_split transcript \<noteq> []" and "length (py_split transcript) < 2 ^ 53"
  shows "(\<exists>pts. analyze_pace transcript duration = Inr pts
           \<and> int (length pts) = num_points_of duration
           \<and> 1 \<le> length pts \<and> length pts \<le> 10
           \<and> min 10 (max 1 \<lfloor>duration / 10 * (1 - 1 / 2 ^ 53)\<rfloor>) \<le> int (length pts)
           \<and> int (length pts) \<le> min 10 (max 1 \<lfloor>duration / 10 * (1 + 1 / 2 ^ 53)\<rfloor>)
           \<and> (\<forall>i < length pts.
                 time (pts ! i) = py_round1 (if num_points_of duration > 1
                                             then fl (fl (real i * duration) / of_int (num_points_of duration - 1))
                                             else 0)
               \<and> \<bar>time (pts ! i) - (if num_points_of duration > 1
                                      then real i * duration / of_int (num_points_of duration - 1)
                                      else 0)\<bar>
                   \<le> 1 / 20 + ((if num_points_of duration > 1
                                  then real i * duration / of_int (num_points_of duration - 1)
                                  else 0) + 1 / 20) / 2 ^ 51
               \<and> 0 \<le> time (pts ! i)
               \<and> time (pts ! i) \<le> (duration + 1 / 20) * (1 + 1 / 2 ^ 51)
               \<and> words_per_minute (pts ! i) =
                   py_round1 (fl (fl (real (length (py_split transcript)) / duration) * 60))
               \<and> \<bar>words_per_minute (pts ! i) - real (length (py_split transcript)) / duration * 60\<bar>
                   \<le> 1 / 20 + (real (length (py_split transcript)) / duration * 60 + 1 / 20) / 2 ^ 51))
       \<and> length (py_split (concat (replicate 200 ''a ''))) = 200
       \<and> analyze_pace (concat (replicate 200 ''a '')) 65 =
           Inr (map (\<lambda>t. \<lparr>time = t, words_per_minute = fl (1846 / 10)\<rparr>) [0, 13, 26, 39, 52, 65])
       \<and> fl (1846 / 10) = 6495035087598387 / 35184372088832
       \<and> \<bar>fl (1846 / 10) - 1846 / 10\<bar> \<le> 1 / 2 ^ 46"
proof -
  let ?n = "num_points_of duration"
  let ?x = "\<lambda>i. if ?n > 1 then real i * duration / of_int (?n - 1) else 0"
  let ?t = "\<lambda>i. py_round1 (if ?n > 1 then fl (fl (real i * duration) / of_int (?n - 1)) else 0)"
  let ?w = "py_round1 (fl (fl (real (length (py_split transcript)) / duration) * 60))"
  let ?pts = "map (\<lambda>i. \<lparr>time = ?t i, words_per_minute = ?w\<rparr>) [0..<nat ?n]"
  have "(0::real) < 1 / 2 ^ 900" by simp
  with assms(1) have d: "0 < duration" by linarith
  have n: "1 \<le> ?n" "?n \<le> 10" by (rule num_points_of_range)+
  have eq: "analyze_pace transcript duration = Inr ?pts"
    by (rule analyze_pace_ok [OF d assms(3)])
  have len: "int (length ?pts) = ?n" using n by simp
  have sw: "min 10 (max 1 \<lfloor>duration / 10 * (1 - 1 / 2 ^ 53)\<rfloor>) \<le> int (length ?pts)"
    "int (length ?pts) \<le> min 10 (max 1 \<lfloor>duration / 10 * (1 + 1 / 2 ^ 53)\<rfloor>)"
    using num_points_of_sandwich [of duration] d by (simp_all only: len)
  have tm: "\<bar>?t i - ?x i\<bar> \<le> 1 / 20 + (?x i + 1 / 20) / 2 ^ 51
            \<and> 0 \<le> ?t i \<and> ?t i \<le> (duration + 1 / 20) * (1 + 1 / 2 ^ 51)"
    if i: "i < nat ?n" for i
  proof (cases "?n > 1")
    case True
    from i have "int i < ?n" by simp
    from pace_time_le [OF d True this] have xd: "?x i \<le> duration" using True by simp
    have x0: "0 \<le> ?x i" using d True by simp
    have ap: "\<bar>?t i - ?x i\<bar> \<le> 1 / 20 + (?x i + 1 / 20) / 2 ^ 51"
      using pace_time_approx [OF d True, of i] True by simp
    have "0 \<le> fl (real i * duration) / of_int (?n - 1)"
      using True d by (intro divide_nonneg_nonneg fl_nonneg) simp_all
    then have "0 \<le> fl (fl (real i * duration) / of_int (?n - 1))" by (rule fl_nonneg)
    then have t0: "0 \<le> ?t i" using True by (simp add: py_round1_nonneg)
    have "(?x i + 1 / 20) / 2 ^ 51 \<le> (duration + 1 / 20) / 2 ^ 51"
      using xd by (simp add: divide_right_mono)
    with ap xd have "?t i \<le> duration + 1 / 20 + (duration + 1 / 20) / 2 ^ 51"
      by (simp only: abs_le_iff) linarith
    also have "\<dots> = (duration + 1 / 20) * (1 + 1 / 2 ^ 51)" by (rule scale_alg)
    finally show ?thesis using ap t0 by blast
  next
    case False
    have "(0::real) \<le> (0 + 1 / 20) * (1 + 1 / 2 ^ 51)" by simp
    also have "\<dots> \<le> (duration + 1 / 20) * (1 + 1 / 2 ^ 51)"
      using d by (intro mult_right_mono) simp_all
    finally show ?thesis using False by (simp add: py_round1_zero)
  qed
  have wp: "\<bar>?w - real (length (py_split transcript)) / duration * 60\<bar>
               \<le> 1 / 20 + (real (length (py_split transcript)) / duration * 60 + 1 / 20) / 2 ^ 51"
    by (rule pace_wpm_approx [OF d])
  have pt: "time (?pts ! i) = ?t i
        \<and> \<bar>time (?pts ! i) - ?x i\<bar> \<le> 1 / 20 + (?x i + 1 / 20) / 2 ^ 51
        \<and> 0 \<le> time (?pts ! i)
        \<and> time (?pts ! i) \<le> (duration + 1 / 20) * (1 + 1 / 2 ^ 51)
        \<and> words_per_minute (?pts ! i) = ?w
        \<and> \<bar>words_per_minute (?pts ! i) - real (length (py_split transcript)) / duration * 60\<bar>
               \<le> 1 / 20 + (real (length (py_split transcript)) / duration * 60 + 1 / 20) / 2 ^ 51"
    if "i < length ?pts" for i
  proof -
    from that have i: "i < nat ?n" by simp
    then have nth: "?pts ! i = \<lparr>time = ?t i, words_per_minute = ?w\<rparr>"
      by (simp del: upt.simps)
    show ?thesis using tm [OF i] wp by (simp only: nth pace_point.simps)
  qed
  from n len have l: "1 \<le> length ?pts" "length ?pts \<le> 10" by simp_all
  from eq len l sw pt have general: "\<exists>pts. analyze_pace transcript duration = Inr pts
           \<and> int (length pts) = ?n \<and> 1 \<le> length pts \<and> length pts \<le> 10
           \<and> min 10 (max 1 \<lfloor>duration / 10 * (1 - 1 / 2 ^ 53)\<rfloor>) \<le> int (length pts)
           \<and> int (length pts) \<le> min 10 (max 1 \<lfloor>duration / 10 * (1 + 1 / 2 ^ 53)\<rfloor>)
           \<and> (\<forall>i < length pts.
                 time (pts ! i) = ?t i
               \<and> \<bar>time (pts ! i) - ?x i\<bar> \<le> 1 / 20 + (?x i + 1 / 20) / 2 ^ 51
               \<and> 0 \<le> time (pts ! i)
               \<and> time (pts ! i) \<le> (duration + 1 / 20) * (1 + 1 / 2 ^ 51)
               \<and> words_per_minute (pts ! i) = ?w
               \<and> \<bar>words_per_minute (pts ! i) - real (length (py_split transcript)) / duration * 60\<bar>
                   \<le> 1 / 20 + (real (length (py_split transcript)) / duration * 60 + 1 / 20) / 2 ^ 51)"
    by blast
  have words: "length (py_split (concat (replicate 200 ''a ''))) = 200"
    by (simp add: py_split_replicate_a)
  have v: "fl (1846 / 10) = 6495035087598387 / 35184372088832" using fl_923_5 by simp
  have ex: "analyze_pace (concat (replicate 200 ''a '')) 65 =
           Inr (map (\<lambda>t. \<lparr>time = t, words_per_minute = fl (1846 / 10)\<rparr>) [0, 13, 26, 39, 52, 65])"
    using pace_example by simp
  have cl: "\<bar>fl (1846 / 10) - 1846 / 10\<bar> \<le> 1 / 2 ^ 46" by (simp only: v) simp
  from general words ex v cl show ?thesis by blast
qed

theorem analyze_pace_points_witness:
  "(1::real) / 2 ^ 900 \<le> 1600 \<and> (1600::real) \<le> 2 ^ 900
   \<and> py_split ''Could not request results'' \<noteq> []
   \<and> length (py_split ''Could not request results'') < 2 ^ 53
   \<and> (\<exists>pts. analyze_pace ''Could not request results'' 1600 = Inr pts \<and> length pts = 10
        \<and> time (pts ! 0) = 0 \<and> words_per_minute (pts ! 0) = fl (1 / 10))
   \<and> fl (1 / 10) = 3602879701896397 / 36028797018963968"
proof -
  let ?T = "''Could not request results''"
  have d1: "(1::real) / 2 ^ 900 \<le> 1600" by simp
  have d2: "(1600::real) \<le> 2 ^ 900" by simp
  have ne: "py_split ?T \<noteq> []" by (simp add: py_split_sentinel)
  have lt: "length (py_split ?T) < 2 ^ 53" by (simp add: py_split_sentinel)
  have wc: "real (length (py_split ?T)) = 4" by (simp add: py_split_sentinel)
  from analyze_pace_points [OF d1 d2 ne lt] obtain pts where
    a: "analyze_pace ?T 1600 = Inr pts" and
    l: "int (length pts) = num_points_of 1600" and
    p: "\<forall>i < length pts.
          time (pts ! i) = py_round1 (if num_points_of 1600 > 1
                                      then fl (fl (real i * 1600) / of_int (num_points_of 1600 - 1))
                                      else 0)
        \<and> words_per_minute (pts ! i) = py_round1 (fl (fl (real (length (py_split ?T)) / 1600) * 60))"
    by blast
  from l have len: "length pts = 10" by (simp add: num_points_of_1600)
  then have "0 < length pts" by simp
  with p have "time (pts ! 0) = py_round1 (if num_points_of 1600 > 1
                                      then fl (fl (real 0 * 1600) / of_int (num_points_of 1600 - 1))
                                      else 0)"
    and "words_per_minute (pts ! 0) = py_round1 (fl (fl (real (length (py_split ?T)) / 1600) * 60))"
    by blast+
  then have "time (pts ! 0) = 0" "words_per_minute (pts ! 0) = fl (1 / 10)"
    by (simp_all only: wc wpm_4_1600) (simp add: num_points_of_1600 fl_zero py_round1_zero)
  with d1 d2 ne lt a len fl_1_10 show ?thesis by blast
qed

text \<open>
  Claim C4 as the spec words it fails: the time of a point is rounded to one decimal, so
  it need not equal \<open>i * d / (numPoints - 1)\<close> and it can exceed the duration. For a
  one-word transcript and a clip of 321000 samples at 16 kHz (20.0625 s, a float) the
  second point is at the float 20.1.
\<close>

theorem analyze_pace_time_counterexample:
  "analyze_pace ''a'' (321 / 16) =
     Inr [\<lparr>time = 0, words_per_minute = 3\<rparr>, \<lparr>time = fl (201 / 10), words_per_minute = 3\<rparr>]
   \<and> num_points_of (321 / 16) = 2
   \<and> fl (201 / 10) = 2828823515942093 / 140737488355328
   \<and> time \<lparr>time = fl (201 / 10), words_per_minute = 3\<rparr> \<noteq> real 1 * (321 / 16) / of_int (2 - 1)
   \<and> \<not> time \<lparr>time = fl (201 / 10), words_per_minute = 3\<rparr> \<le> 321 / 16"
proof -
  have w: "py_split ''a'' = [''a'']" by (simp add: py_split_def is_space_def)
  have wc: "real (length (py_split ''a'')) = 1" by (simp add: w)
  have two: "[0..<nat 2] = [0, 1]" by (simp add: upt_conv_Cons eval_nat_numeral)
  have ap: "analyze_pace ''a'' (321 / 16) =
     Inr (map (\<lambda>i. \<lparr>time = py_round1 (if num_points_of (321 / 16) > 1
                                      then fl (fl (real i * (321 / 16)) / of_int (num_points_of (321 / 16) - 1))
                                      else 0),
          words_per_minute = py_round1 (fl (fl (real (length (py_split ''a'')) / (321 / 16)) * 60))\<rparr>)
        [0..<nat (num_points_of (321 / 16))])"
    by (rule analyze_pace_ok) (simp_all add: w)
  have a: "analyze_pace ''a'' (321 / 16) =
     Inr [\<lparr>time = 0, words_per_minute = 3\<rparr>, \<lparr>time = fl (201 / 10), words_per_minute = 3\<rparr>]"
    unfolding ap wc wpm_1_321_16 num_points_of_321_16 two
    by (simp add: fl_zero py_round1_zero fl_321_16 py_round1_321_16)
  have "fl (201 / 10) \<noteq> real 1 * (321 / 16) / of_int (2 - 1)" "\<not> fl (201 / 10) \<le> 321 / 16"
    by (simp_all add: fl_201_10)
  with a num_points_of_321_16 fl_201_10 show ?thesis by simp
qed



section \<open>Properties of filler detection\<close>

lemma is_word_char_lower: "is_word_char (py_lower_char c) = is_word_char c"
proof -
  have r: "of_char (char_of (of_char c + 32 :: nat)) = (of_char c + 32 :: nat)"
    if "of_char c \<le> (90::nat)"
    using that by (simp add: char_of_def [symmetric])
  show ?thesis
    by (auto simp add: is_word_char_def py_lower_char_def Let_def r)
qed

lemma length_py_lower: "length (py_lower s) = length s"
  by (simp add: py_lower_def)

lemma take_eq_imp_le:
  assumes "take (length w) (drop i t) = w"
  shows "i + length w \<le> length t \<or> w = []"
proof -
  from assms have "length (take (length w) (drop i t)) = length w" by simp
  then show ?thesis by (cases w) auto
qed

lemma take_eq_nth:
  assumes "take (length w) (drop i t) = w" "k < length w"
  shows "t ! (i + k) = w ! k"
proof -
  from assms(1) have le: "i + length w \<le> length t" using take_eq_imp_le [OF assms(1)] assms(2) by auto
  have "w ! k = take (length w) (drop i t) ! k" using assms(1) by simp
  also have "\<dots> = t ! (i + k)" using assms(2) le by simp
  finally show ?thesis by simp
qed

lemma no_overlap:
  assumes a: "take (length w) (drop i t) = w" and b: "take (length w) (drop j t) = w"
    and ij: "i < j" "j < i + length w" and border: "hd w \<notin> set (tl w)"
  shows False
proof -
  from ij have w: "w \<noteq> []" by auto
  from ij have k: "j - i < length w" "0 < j - i" by auto
  from take_eq_nth [OF a k(1)] ij have "t ! j = w ! (j - i)" by simp
  moreover from take_eq_nth [OF b, of 0] w have "t ! j = w ! 0" by simp
  ultimately have "w ! (j - i) = hd w" using w by (simp add: hd_conv_nth)
  moreover have "w ! (j - i) \<in> set (tl w)"
  proof -
    from k obtain m where m: "j - i = Suc m" by (cases "j - i") auto
    with k w have "w ! (j - i) = tl w ! m" "m < length (tl w)" by (simp_all add: nth_tl)
    then show ?thesis by (metis nth_mem)
  qed
  ultimately show False using border by simp
qed

lemma match_imp_take: "match_word_at w t i \<Longrightarrow> take (length w) (drop i t) = w"
  by (simp add: match_word_at_def)

lemma filter_upt_single:
  assumes "P i" "i + n \<le> m" "0 < n" "\<And>j. i < j \<Longrightarrow> j < i + n \<Longrightarrow> \<not> P j"
  shows "length (filter P [i..<Suc m]) = Suc (length (filter P [i + n..<Suc m]))"
proof -
  from assms(2) obtain k where k: "Suc m = (i + n) + k"
    by (metis le_Suc_eq le_iff_add)
  have "Suc i \<le> i + n" using assms(3) by simp
  then have "[Suc i..<(i + n) + k] = [Suc i..<i + n] @ [i + n..<(i + n) + k]"
    by (rule upt_add_eq_append)
  with k have tail: "[Suc i..<Suc m] = [Suc i..<i + n] @ [i + n..<Suc m]" by simp
  have "i < Suc m" using assms(2) by simp
  then have head: "[i..<Suc m] = i # [Suc i..<Suc m]" by (rule upt_conv_Cons)
  have mid: "filter P [Suc i..<i + n] = []"
    using assms(4) by (auto simp: filter_empty_conv)
  show ?thesis
    unfolding head tail using assms(1) mid by simp
qed

lemma findall_count_filter:
  assumes w: "w \<noteq> []" "hd w \<notin> set (tl w)"
  shows "findall_count w t pos = length (filter (match_word_at w t) [pos..<Suc (length t)])"
  using w
proof (induction w t pos rule: findall_count.induct)
  case (1 word s pos)
  show ?case
  proof (cases "length s < pos")
    case True
    then show ?thesis by (simp add: findall_count.simps [of word s pos])
  next
    case False
    note in_range = this
    show ?thesis
    proof (cases "match_word_at word s pos")
      case True
      from "1.prems" have n: "0 < length word" "max 1 (length word) = length word"
        by (cases word; simp)+
      from True have tk: "take (length word) (drop pos s) = word" by (rule match_imp_take)
      with "1.prems" take_eq_imp_le [OF tk] have le: "pos + length word \<le> length s" by simp
      have none: "\<not> match_word_at word s j" if "pos < j" "j < pos + length word" for j
        using no_overlap [OF tk _ that "1.prems"(2)] match_imp_take by blast
      have "findall_count word s pos = 1 + findall_count word s (pos + length word)"
        using in_range True n by (simp add: findall_count.simps [of word s pos])
      also have "findall_count word s (pos + length word) =
          length (filter (match_word_at word s) [pos + length word..<Suc (length s)])"
        using "1.IH"(1) [OF in_range True "1.prems"] n by simp
      finally show ?thesis
        using filter_upt_single [of "match_word_at word s" pos "length word" "length s",
            OF True le n(1) none]
        by simp
    next
      case False
      from in_range have "pos < Suc (length s)" by simp
      then have head: "[pos..<Suc (length s)] = pos # [Suc pos..<Suc (length s)]"
        by (rule upt_conv_Cons)
      have "findall_count word s pos = findall_count word s (pos + 1)"
        using in_range False by (simp add: findall_count.simps [of word s pos])
      also have "\<dots> = length (filter (match_word_at word s) [pos + 1..<Suc (length s)])"
        using "1.IH"(2) [OF in_range False "1.prems"] .
      finally show ?thesis
        unfolding head using False by simp
    qed
  qed
qed

lemma match_iff_whole_word:
  assumes w: "w \<noteq> []" "is_word_char (hd w)" "is_word_char (last w)"
  shows "match_word_at w (py_lower s) i = whole_word_at w s i"
proof (cases "take (length w) (drop i (py_lower s)) = w")
  case False
  then show ?thesis
    by (auto simp add: match_word_at_def whole_word_at_def py_lower_def take_map drop_map)
next
  case True
  let ?t = "py_lower s"
  let ?n = "length w"
  from w have n: "0 < ?n" by simp
  from take_eq_imp_le [OF True] w have le: "i + ?n \<le> length s"
    by (simp add: length_py_lower)
  have wc: "is_word_char (?t ! k) = is_word_char (s ! k)" if "k < length s" for k
    using that by (simp add: py_lower_def is_word_char_lower)
  from take_eq_nth [OF True, of 0] n w have first: "?t ! i = hd w"
    by (simp add: hd_conv_nth)
  from take_eq_nth [OF True, of "?n - 1"] n w have lst: "?t ! (i + ?n - 1) = last w"
    by (simp add: last_conv_nth)
  from le n have lt: "i < length s" "i + ?n - 1 < length s" by linarith+
  from first w have fw: "is_word_char (s ! i)" using wc [OF lt(1)] by simp
  from lst w have lw: "is_word_char (s ! (i + ?n - 1))" using wc [OF lt(2)] by simp
  have tw: "is_word_char (?t ! i)" "is_word_char (?t ! (i + ?n - 1))"
    using fw lw wc [OF lt(1)] wc [OF lt(2)] by simp_all
  have prev: "is_word_char (?t ! (i - 1)) = is_word_char (s ! (i - 1))"
    using lt(1) by (intro wc) simp
  have b1: "at_word_boundary ?t i = (i = 0 \<or> \<not> is_word_char (s ! (i - 1)))"
    unfolding at_word_boundary_def length_py_lower using lt(1) tw(1) prev by auto
  have nxt: "is_word_char (?t ! (i + ?n)) = is_word_char (s ! (i + ?n))" if "i + ?n < length s"
    using that by (rule wc)
  have pre: "0 < i + ?n \<and> i + ?n \<le> length s \<and> is_word_char (?t ! (i + ?n - 1))"
    using n le tw(2) by simp
  have b2: "at_word_boundary ?t (i + ?n) = (i + ?n = length s \<or> \<not> is_word_char (s ! (i + ?n)))"
  proof (cases "i + ?n < length s")
    case True
    with nxt pre show ?thesis
      unfolding at_word_boundary_def length_py_lower by auto
  next
    case False
    with le have "i + ?n = length s" by simp
    with pre show ?thesis
      unfolding at_word_boundary_def length_py_lower by auto
  qed
  have tk: "map py_lower_char (take ?n (drop i s)) = w"
    using True by (simp add: py_lower_def take_map drop_map)
  show ?thesis
    unfolding match_word_at_def whole_word_at_def b1 b2 using True tk le by simp
qed

lemma fillers_loop_eq:
  "fillers_loop t ws acc =
     acc @ map (\<lambda>w. \<lparr>word = w, count = findall_count w (py_lower t) 0\<rparr>)
             (filter (\<lambda>w. 0 < findall_count w (py_lower t) 0) ws)"
  by (induction ws arbitrary: acc) (simp_all add: Let_def)

lemma filler_words_shape:
  assumes "w \<in> set filler_words"
  shows "w \<noteq> []" "hd w \<notin> set (tl w)" "is_word_char (hd w)" "is_word_char (last w)"
  using assms by (auto simp add: filler_words_def is_word_char_def)

lemma findall_count_whole_word:
  assumes "w \<in> set filler_words"
  shows "findall_count w (py_lower t) 0 = whole_word_count w t"
proof -
  note sh = filler_words_shape [OF assms]
  have "findall_count w (py_lower t) 0 =
      length (filter (match_word_at w (py_lower t)) [0..<Suc (length (py_lower t))])"
    using sh(1,2) by (rule findall_count_filter)
  also have "match_word_at w (py_lower t) = whole_word_at w t"
    using match_iff_whole_word [OF sh(1,3,4)] by (intro ext)
  finally show ?thesis by (simp add: whole_word_count_def length_py_lower)
qed

lemma detect_fillers_eq:
  "detect_fillers t =
     map (\<lambda>w. \<lparr>word = w, count = whole_word_count w t\<rparr>)
       (filter (\<lambda>w. 0 < whole_word_count w t) filler_words)"
proof -
  have "detect_fillers t =
      map (\<lambda>w. \<lparr>word = w, count = findall_count w (py_lower t) 0\<rparr>)
        (filter (\<lambda>w. 0 < findall_count w (py_lower t) 0) filler_words)"
    by (simp add: detect_fillers_def fillers_loop_eq)
  also have "\<dots> = map (\<lambda>w. \<lparr>word = w, count = whole_word_count w t\<rparr>)
        (filter (\<lambda>w. 0 < findall_count w (py_lower t) 0) filler_words)"
    by (rule map_cong) (simp_all add: findall_count_whole_word)
  also have "filter (\<lambda>w. 0 < findall_count w (py_lower t) 0) filler_words =
      filter (\<lambda>w. 0 < whole_word_count w t) filler_words"
    by (rule filter_cong) (simp_all add: findall_count_whole_word)
  finally show ?thesis .
qed

lemma sum_list_filter_pos:
  "sum_list (map f (filter (\<lambda>w. 0 < f w) ws)) = sum_list (map f ws)" for f :: "'a \<Rightarrow> nat"
  by (induction ws) simp_all

lemma total_fillers_eq:
  "total_fillers (detect_fillers t) = sum_list (map (\<lambda>w. whole_word_count w t) filler_words)"
proof -
  have "map count (detect_fillers t) =
      map (\<lambda>w. whole_word_count w t) (filter (\<lambda>w. 0 < whole_word_count w t) filler_words)"
    by (simp add: detect_fillers_eq comp_def)
  then show ?thesis
    by (simp add: total_fillers_def sum_list_filter_pos)
qed

lemma fillers_example:
  "detect_fillers ''um like this is a test um'' =
     [\<lparr>word = ''um'', count = 2\<rparr>, \<lparr>word = ''like'', count = 1\<rparr>]"
  by code_simp

lemma fillers_social: "whole_word_count ''so'' ''social'' = 0"
  by code_simp

text \<open>
  Claim C3. For every transcript, \<open>detect_fillers\<close> returns, in lexicon order, the
  entries of the lexicon um, uh, like, you know, so whose number of case-insensitive
  whole-word occurrences is positive, each with that number; the total is the sum of the
  numbers. The word so inside social is not counted, and the transcript
  um like this is a test um gives um twice and like once, 3 fillers in total.
\<close>

theorem detect_fillers_counts:
  "detect_fillers t =
     map (\<lambda>w. \<lparr>word = w, count = whole_word_count w t\<rparr>)
       (filter (\<lambda>w. 0 < whole_word_count w t) [''um'', ''uh'', ''like'', ''you know'', ''so''])
   \<and> total_fillers (detect_fillers t) =
       sum_list (map (\<lambda>w. whole_word_count w t) [''um'', ''uh'', ''like'', ''you know'', ''so''])
   \<and> whole_word_count ''so'' ''social'' = 0
   \<and> detect_fillers ''um like this is a test um'' =
       [\<lparr>word = ''um'', count = 2\<rparr>, \<lparr>word = ''like'', count = 1\<rparr>]
   \<and> total_fillers (detect_fillers ''um like this is a test um'') = 3"
proof -
  have tot: "total_fillers (detect_fillers ''um like this is a test um'') = 3"
    by (simp add: fillers_example total_fillers_def)
  show ?thesis
    using detect_fillers_eq [of t] total_fillers_eq [of t] fillers_social fillers_example tot
    by (simp add: filler_words_def)
qed

theorem detect_fillers_counts_witness:
  "detect_fillers ''So, like, SOCIAL media... you know'' =
     [\<lparr>word = ''like'', count = 1\<rparr>, \<lparr>word = ''you know'', count = 1\<rparr>, \<lparr>word = ''so'', count = 1\<rparr>]"
proof -
  let ?t = "''So, like, SOCIAL media... you know''"
  have "detect_fillers ?t =
     map (\<lambda>w. \<lparr>word = w, count = whole_word_count w ?t\<rparr>)
       (filter (\<lambda>w. 0 < whole_word_count w ?t) [''um'', ''uh'', ''like'', ''you know'', ''so''])"
    using detect_fillers_counts [of ?t] by blast
  also have "\<dots> = [\<lparr>word = ''like'', count = 1\<rparr>, \<lparr>word = ''you know'', count = 1\<rparr>,
      \<lparr>word = ''so'', count = 1\<rparr>]"
    by code_simp
  finally show ?thesis .
qed

section \<open>Properties of silence detection\<close>

lemma frames_to_time_strict_mono:
  assumes "0 < sample_rate self" "i < j"
  shows "frames_to_time self i < frames_to_time self j"
  using assms by (simp add: frames_to_time_def divide_strict_right_mono)

lemma silence_loop_inv:
  assumes mono: "\<And>i j. i < j \<Longrightarrow> T i < T j"
  shows "silence_inv T i st \<Longrightarrow> silence_inv T (i + length bs) (silence_loop T i bs st)"
proof (induction bs arbitrary: i st)
  case Nil
  then show ?case by simp
next
  case (Cons b bs)
  obtain segs in_sil start where st: "st = (segs, in_sil, start)" by (cases st)
  let ?st' = "if b \<and> \<not> in_sil then (segs, True, T i)
        else if \<not> b \<and> in_sil then (segs @ [(start, T i)], False, start)
        else (segs, in_sil, start)"
  have step: "T i < T (Suc i)" by (simp add: mono)
  have lt: "x < T i \<Longrightarrow> x < T (Suc i)" for x using step by simp
  have "silence_inv T (Suc i) ?st'"
  proof (cases "b \<and> \<not> in_sil")
    case True
    with Cons.prems st step show ?thesis
      by (auto simp add: silence_inv_def intro: lt)
  next
    case open_false: False
    show ?thesis
    proof (cases "\<not> b \<and> in_sil")
      case True
      from Cons.prems st True obtain j where j: "j < i" "start = T j"
        by (auto simp add: silence_inv_def)
      then have "start < T i" by (simp add: mono)
      with Cons.prems st True step open_false show ?thesis
        by (auto simp add: silence_inv_def sorted_wrt_append intro: lt)
    next
      case False
      with Cons.prems st open_false show ?thesis
        by (auto simp add: silence_inv_def intro: lt less_SucI)
    qed
  qed
  from Cons.IH [OF this] st show ?case by simp
qed

lemma silence_loop_flag:
  "bs \<noteq> [] \<Longrightarrow> fst (snd (silence_loop T i bs st)) = last bs"
proof (induction bs arbitrary: i st)
  case Nil
  then show ?case by simp
next
  case (Cons b bs)
  obtain segs in_sil start where st: "st = (segs, in_sil, start)" by (cases st)
  show ?case
  proof (cases "bs = []")
    case True
    with st show ?thesis by auto
  next
    case False
    with Cons.IH st show ?thesis by simp
  qed
qed

lemma silence_loop_open:
  assumes "fst (snd st) = (0 < length (takeWhile (\<lambda>b. b) (rev pre)))"
    and "fst (snd st) \<longrightarrow> snd (snd st) = T (length pre - length (takeWhile (\<lambda>b. b) (rev pre)))"
  shows "fst (snd (silence_loop T (length pre) bs st))
           = (0 < length (takeWhile (\<lambda>b. b) (rev (pre @ bs))))
       \<and> (fst (snd (silence_loop T (length pre) bs st)) \<longrightarrow>
            snd (snd (silence_loop T (length pre) bs st))
              = T (length (pre @ bs) - length (takeWhile (\<lambda>b. b) (rev (pre @ bs)))))"
  using assms
proof (induction bs arbitrary: pre st)
  case Nil
  then show ?case by simp
next
  case (Cons b bs)
  obtain segs in_sil start where st: "st = (segs, in_sil, start)" by (cases st)
  let ?i = "length pre"
  let ?run = "length (takeWhile (\<lambda>b. b) (rev pre))"
  let ?st' = "if b \<and> \<not> in_sil then (segs, True, T ?i)
        else if \<not> b \<and> in_sil then (segs @ [(start, T ?i)], False, start)
        else (segs, in_sil, start)"
  have run_le: "?run \<le> ?i" using length_takeWhile_le [of "\<lambda>b. b" "rev pre"] by simp
  have run': "length (takeWhile (\<lambda>b. b) (rev (pre @ [b]))) = (if b then Suc ?run else 0)" by simp
  from Cons.prems st have flag: "in_sil = (0 < ?run)"
    and start: "in_sil \<longrightarrow> start = T (?i - ?run)" by simp_all
  have a: "fst (snd ?st') = (0 < length (takeWhile (\<lambda>b. b) (rev (pre @ [b]))))"
    using flag by (simp only: run') auto
  have b: "fst (snd ?st') \<longrightarrow>
      snd (snd ?st') = T (length (pre @ [b]) - length (takeWhile (\<lambda>b. b) (rev (pre @ [b]))))"
    using flag start run_le by (simp only: run') auto
  have "silence_loop T ?i (b # bs) st = silence_loop T (length (pre @ [b])) bs ?st'"
    using st by simp
  with Cons.IH [of ?st' "pre @ [b]", OF a b] show ?case by simp
qed

lemma silence_loop_trailing:
  assumes "silence_loop T 0 (map (\<lambda>v. v < thr) rms_db) ([], False, 0) = (segs, in_sil, start)"
  shows "in_sil = (0 < trailing_silent_frames rms_db thr)"
    and "in_sil \<Longrightarrow> start = T (length rms_db - trailing_silent_frames rms_db thr)"
proof -
  let ?bs = "map (\<lambda>v. v < thr) rms_db"
  have r: "length (takeWhile (\<lambda>b. b) (rev ?bs)) = trailing_silent_frames rms_db thr"
    by (simp add: trailing_silent_frames_def rev_map takeWhile_map comp_def)
  from silence_loop_open [of "([], False, 0)" "[]" T ?bs] assms
  have "in_sil = (0 < length (takeWhile (\<lambda>b. b) (rev ?bs)))
      \<and> (in_sil \<longrightarrow> start = T (length ?bs - length (takeWhile (\<lambda>b. b) (rev ?bs))))"
    by simp
  then show "in_sil = (0 < trailing_silent_frames rms_db thr)"
    and "in_sil \<Longrightarrow> start = T (length rms_db - trailing_silent_frames rms_db thr)"
    by (simp_all add: r)
qed

lemma trailing_silent_frames_le: "trailing_silent_frames rms_db thr \<le> length rms_db"
  using length_takeWhile_le [of "\<lambda>v. v < thr" "rev rms_db"]
  by (simp add: trailing_silent_frames_def)

lemma trailing_silent_frames_pos:
  "0 < trailing_silent_frames rms_db thr \<longleftrightarrow> rms_db \<noteq> [] \<and> last rms_db < thr"
proof (cases "rms_db = []")
  case True
  then show ?thesis by (simp add: trailing_silent_frames_def)
next
  case False
  then have "rms_db = butlast rms_db @ [last rms_db]" by simp
  then have "rev rms_db = rev (butlast rms_db @ [last rms_db])" by (rule arg_cong)
  then have e: "rev rms_db = last rms_db # rev (butlast rms_db)" by (simp only: rev_append rev.simps append.simps)
  show ?thesis unfolding trailing_silent_frames_def by (subst e) (simp add: False)
qed

lemma detect_silence_cases:
  assumes sr: "0 < sample_rate self"
  obtains segs where
    "detect_silence self rms_db thr = segs"
    "trailing_silent_frames rms_db thr = 0"
    "\<forall>p \<in> set segs. fst p < snd p"
    "sorted_wrt (\<lambda>p q. snd p < fst q) segs"
  | segs start where
    "detect_silence self rms_db thr = segs @ [(start, frames_to_time self (length rms_db - 1))]"
    "0 < trailing_silent_frames rms_db thr"
    "start = frames_to_time self (length rms_db - trailing_silent_frames rms_db thr)"
    "\<forall>p \<in> set segs. fst p < snd p"
    "sorted_wrt (\<lambda>p q. snd p < fst q) segs"
    "\<forall>p \<in> set segs. snd p < start"
proof -
  let ?T = "frames_to_time self"
  let ?bs = "map (\<lambda>v. v < thr) rms_db"
  obtain segs in_sil start where r: "silence_loop ?T 0 ?bs ([], False, 0) = (segs, in_sil, start)"
    by (cases "silence_loop ?T 0 ?bs ([], False, 0)")
  have mono: "\<And>i j. i < j \<Longrightarrow> ?T i < ?T j"
    using sr by (rule frames_to_time_strict_mono)
  have "silence_inv ?T 0 ([], False, 0)" by (simp add: silence_inv_def)
  from silence_loop_inv [of ?T 0 _ ?bs, OF mono this] r
  have inv: "silence_inv ?T (length rms_db) (segs, in_sil, start)" by simp
  note tr = silence_loop_trailing [OF r]
  show ?thesis
  proof (cases in_sil)
    case False
    with tr(1) have "trailing_silent_frames rms_db thr = 0" by simp
    moreover from r False have "detect_silence self rms_db thr = segs"
      by (simp add: detect_silence_def)
    moreover from inv have "\<forall>p \<in> set segs. fst p < snd p" "sorted_wrt (\<lambda>p q. snd p < fst q) segs"
      by (simp_all add: silence_inv_def)
    ultimately show ?thesis by (intro that(1))
  next
    case True
    with tr(1) have pos: "0 < trailing_silent_frames rms_db thr" by simp
    from tr(2) [OF True] have st: "start = ?T (length rms_db - trailing_silent_frames rms_db thr)" .
    from r True have "detect_silence self rms_db thr = segs @ [(start, ?T (length rms_db - 1))]"
      by (simp add: detect_silence_def)
    moreover from inv True have "\<forall>p \<in> set segs. fst p < snd p"
      "sorted_wrt (\<lambda>p q. snd p < fst q) segs" "\<forall>p \<in> set segs. snd p < start"
      by (simp_all add: silence_inv_def)
    ultimately show ?thesis using pos st by (intro that(2))
  qed
qed

lemma detect_silence_example:
  "detect_silence AudioProcessor [-50, -50, 0, -60, -10, -70, -80] (-40) =
     [(0, 8 / 125), (12 / 125, 16 / 125), (4 / 25, 24 / 125)]"
  by (simp add: detect_silence_def AudioProcessor_def frames_to_time_def)

text \<open>
  Claim C2, as the code has it. For a positive sample rate, every interval
  \<open>detect_silence\<close> returns but the last has \<open>start < end\<close>, and so has the last
  unless the clip ends in a silence of exactly one frame: a clip that ends in \<open>r > 0\<close>
  silent frames has as its last interval the one from the time of frame \<open>n - r\<close> to
  the time of the last frame \<open>n - 1\<close>, which is proper for \<open>r \<ge> 2\<close> and has
  \<open>start = end\<close> for \<open>r = 1\<close>. Each interval ends before the next one starts, so the
  intervals do not overlap and their starts ascend; and when the last frame is silent
  the last interval ends at the time of the last frame.
\<close>

theorem detect_silence_intervals:
  assumes sr: "0 < sample_rate self"
  shows "(\<forall>p \<in> set (butlast (detect_silence self rms_db thr)). fst p < snd p)
       \<and> (trailing_silent_frames rms_db thr \<noteq> 1 \<longrightarrow>
            (\<forall>p \<in> set (detect_silence self rms_db thr). fst p < snd p))
       \<and> (0 < trailing_silent_frames rms_db thr \<longrightarrow>
            detect_silence self rms_db thr \<noteq> []
          \<and> last (detect_silence self rms_db thr) =
              (frames_to_time self (length rms_db - trailing_silent_frames rms_db thr),
               frames_to_time self (length rms_db - 1)))
       \<and> (trailing_silent_frames rms_db thr = 1 \<longrightarrow>
            fst (last (detect_silence self rms_db thr)) = snd (last (detect_silence self rms_db thr)))
       \<and> (\<forall>p \<in> set (detect_silence self rms_db thr). fst p \<le> snd p)
       \<and> sorted_wrt (\<lambda>p q. snd p < fst q) (detect_silence self rms_db thr)
       \<and> sorted_wrt (<) (map fst (detect_silence self rms_db thr))
       \<and> (0 < trailing_silent_frames rms_db thr \<longleftrightarrow> rms_db \<noteq> [] \<and> last rms_db < thr)
       \<and> (rms_db \<noteq> [] \<and> last rms_db < thr \<longrightarrow>
            detect_silence self rms_db thr \<noteq> []
          \<and> snd (last (detect_silence self rms_db thr)) = frames_to_time self (length rms_db - 1))"
proof -
  let ?res = "detect_silence self rms_db thr"
  let ?r = "trailing_silent_frames rms_db thr"
  let ?T = "frames_to_time self"
  have chain: "sorted_wrt (<) (map fst xs)"
    if "\<forall>p \<in> set xs. fst p \<le> snd p" "sorted_wrt (\<lambda>p q. snd p < fst q) xs"
    for xs :: "(real \<times> real) list"
    using that by (induction xs) (auto simp add: sorted_wrt_map)
  note pos = trailing_silent_frames_pos [of rms_db thr]
  note rle = trailing_silent_frames_le [of rms_db thr]
  show ?thesis
  proof (rule detect_silence_cases [OF sr, of rms_db thr], goal_cases)
    case (1 segs)
    then have strict: "\<forall>p \<in> set ?res. fst p < snd p" by simp
    then have le: "\<forall>p \<in> set ?res. fst p \<le> snd p" by (auto simp add: less_imp_le)
    from strict have bl: "\<forall>p \<in> set (butlast ?res). fst p < snd p"
      by (auto dest: in_set_butlastD)
    from 1 have s: "sorted_wrt (\<lambda>p q. snd p < fst q) ?res" by simp
    from le s have c: "sorted_wrt (<) (map fst ?res)" by (rule chain)
    from 1 have z: "?r = 0" by simp
    from strict have c2: "?r \<noteq> 1 \<longrightarrow> (\<forall>p \<in> set ?res. fst p < snd p)" by simp
    from z have c3: "0 < ?r \<longrightarrow>
        ?res \<noteq> [] \<and> last ?res = (?T (length rms_db - ?r), ?T (length rms_db - 1))" by simp
    from z have c4: "?r = 1 \<longrightarrow> fst (last ?res) = snd (last ?res)" by simp
    from z pos have "\<not> (rms_db \<noteq> [] \<and> last rms_db < thr)" by simp
    then have c9: "rms_db \<noteq> [] \<and> last rms_db < thr \<longrightarrow>
        ?res \<noteq> [] \<and> snd (last ?res) = ?T (length rms_db - 1)" by blast
    show ?thesis by (intro conjI; fact bl c2 c3 c4 le s c pos c9)
  next
    case (2 segs start)
    have lastv: "?res \<noteq> [] \<and> last ?res = (?T (length rms_db - ?r), ?T (length rms_db - 1))"
      using 2 by simp
    have le_last: "?T (length rms_db - ?r) \<le> ?T (length rms_db - 1)"
    proof (cases "?r = 1")
      case True
      then show ?thesis by simp
    next
      case False
      with 2(2) rle have "length rms_db - ?r < length rms_db - 1" by linarith
      then show ?thesis using frames_to_time_strict_mono [OF sr] by (simp add: less_imp_le)
    qed
    have lt_last: "?T (length rms_db - ?r) < ?T (length rms_db - 1)" if "?r \<noteq> 1"
    proof -
      from that 2(2) rle have "length rms_db - ?r < length rms_db - 1" by linarith
      then show ?thesis by (rule frames_to_time_strict_mono [OF sr])
    qed
    from 2 have bl: "\<forall>p \<in> set (butlast ?res). fst p < snd p" by simp
    from 2 lt_last have strict: "?r \<noteq> 1 \<longrightarrow> (\<forall>p \<in> set ?res. fst p < snd p)" by auto
    from 2 le_last have le: "\<forall>p \<in> set ?res. fst p \<le> snd p" by (auto simp add: less_imp_le)
    from 2 have s: "sorted_wrt (\<lambda>p q. snd p < fst q) ?res"
      by (simp add: sorted_wrt_append)
    from le s have c: "sorted_wrt (<) (map fst ?res)" by (rule chain)
    from lastv have c3: "0 < ?r \<longrightarrow>
        ?res \<noteq> [] \<and> last ?res = (?T (length rms_db - ?r), ?T (length rms_db - 1))" by simp
    from lastv have c4: "?r = 1 \<longrightarrow> fst (last ?res) = snd (last ?res)" by simp
    from lastv have c9: "rms_db \<noteq> [] \<and> last rms_db < thr \<longrightarrow>
        ?res \<noteq> [] \<and> snd (last ?res) = ?T (length rms_db - 1)" by simp
    show ?thesis by (intro conjI; fact bl strict c3 c4 le s c pos c9)
  qed
qed

theorem detect_silence_intervals_witness:
  "0 < sample_rate AudioProcessor
   \<and> trailing_silent_frames [-50, -50, 0, -60, -10, -70, -80] (-40) = 2
   \<and> trailing_silent_frames [-9, -6, -6, -6, -6, -7, -9, -12, -86] (-40) = 1
   \<and> [-50, -50, 0, -60, -10, -70, -80] \<noteq> ([] :: real list)
   \<and> last [-50, -50, 0, -60, -10, -70, -80] < (-40 :: real)
   \<and> detect_silence AudioProcessor [-50, -50, 0, -60, -10, -70, -80] (-40) =
       [(0, 8 / 125), (12 / 125, 16 / 125), (4 / 25, 24 / 125)]
   \<and> last (detect_silence AudioProcessor [-50, -50, 0, -60, -10, -70, -80] (-40)) =
       (frames_to_time AudioProcessor 5, frames_to_time AudioProcessor 6)
   \<and> fst (last (detect_silence AudioProcessor [-9, -6, -6, -6, -6, -7, -9, -12, -86] (-40))) =
       snd (last (detect_silence AudioProcessor [-9, -6, -6, -6, -6, -7, -9, -12, -86] (-40)))"
proof -
  have sr: "0 < sample_rate AudioProcessor" by (simp add: AudioProcessor_def)
  have r2: "trailing_silent_frames [-50, -50, 0, -60, -10, -70, -80] (-40) = 2"
    by (simp add: trailing_silent_frames_def)
  have r1: "trailing_silent_frames [-9, -6, -6, -6, -6, -7, -9, -12, -86] (-40) = 1"
    by (simp add: trailing_silent_frames_def)
  note a = detect_silence_intervals [OF sr, of "[-50, -50, 0, -60, -10, -70, -80]" "-40"]
  note b = detect_silence_intervals [OF sr, of "[-9, -6, -6, -6, -6, -7, -9, -12, -86]" "-40"]
  from a r2 have l: "last (detect_silence AudioProcessor [-50, -50, 0, -60, -10, -70, -80] (-40)) =
       (frames_to_time AudioProcessor 5, frames_to_time AudioProcessor 6)"
    by (simp add: eval_nat_numeral)
  from b r1 have e: "fst (last (detect_silence AudioProcessor [-9, -6, -6, -6, -6, -7, -9, -12, -86] (-40))) =
       snd (last (detect_silence AudioProcessor [-9, -6, -6, -6, -6, -7, -9, -12, -86] (-40)))"
    by simp
  from sr r2 r1 l e detect_silence_example show ?thesis by simp
qed

text \<open>
  Claim C2 as the spec words it fails: when the silence begins at the last frame, the
  interval closed at the end of the clip starts and ends at the time of that frame. A
  clip of 4096 samples at 16 kHz that is loud for its first 3072 samples and silent after
  them has 9 frames, of which only the last is below -40 dB: the result is the single
  interval from 0.256 s to 0.256 s.
\<close>

theorem detect_silence_start_end_counterexample:
  "detect_silence AudioProcessor [-9, -6, -6, -6, -6, -7, -9, -12, -86] (-40) =
     [(32 / 125, 32 / 125)]
   \<and> \<not> fst (32 / 125 :: real, 32 / 125 :: real) < snd (32 / 125 :: real, 32 / 125 :: real)"
  by (simp add: detect_silence_def AudioProcessor_def frames_to_time_def)

section \<open>Properties of the audio processor\<close>

lemma np_mean_squares_nonneg: "0 \<le> np_mean (map (\<lambda>x. x\<^sup>2) xs)"
proof -
  have "0 \<le> sum_list (map (\<lambda>x. x\<^sup>2) xs)"
    by (rule sum_list_nonneg) auto
  then show ?thesis by (simp add: np_mean_def)
qed

lemma frame_rms_nonneg: "0 \<le> frame_rms window"
  by (simp add: frame_rms_def np_mean_squares_nonneg)

lemma librosa_rms_nonneg: "r \<in> set (librosa_rms frames) \<Longrightarrow> 0 \<le> r"
  by (auto simp add: librosa_rms_def frame_rms_nonneg)

lemma extract_intensity_finite:
  "extract_intensity frames = Inr vs \<Longrightarrow> v \<in> set vs \<Longrightarrow> is_finite v"
  by (auto simp add: extract_intensity_def Let_def np_divide_def split: if_splits)

text \<open>
  Claim C6. When the largest frame RMS of the clip is positive, \<open>extract_intensity\<close>
  returns \<open>rms / max(rms) * 100\<close> for each frame: finite values between 0 and 100, the
  largest of them exactly 100.
\<close>

theorem extract_intensity_normalized:
  assumes ne: "frames \<noteq> []" and pos: "0 < Max (set (librosa_rms frames))"
  shows "\<exists>vals. extract_intensity frames = Inr (map Finite vals)
           \<and> vals = map (\<lambda>r. r / Max (set (librosa_rms frames)) * 100) (librosa_rms frames)
           \<and> (\<forall>v \<in> set vals. 0 \<le> v \<and> v \<le> 100)
           \<and> Max (set vals) = 100"
proof -
  let ?rms = "librosa_rms frames"
  let ?M = "Max (set ?rms)"
  let ?vals = "map (\<lambda>r. r / ?M * 100) ?rms"
  from ne have rne: "?rms \<noteq> []" by (simp add: librosa_rms_def)
  have eq: "extract_intensity frames = Inr (map Finite ?vals)"
    using rne pos by (simp add: extract_intensity_def Let_def np_divide_def comp_def)
  have bound: "0 \<le> r / ?M * 100 \<and> r / ?M * 100 \<le> 100" if "r \<in> set ?rms" for r
  proof -
    from that have "0 \<le> r" by (rule librosa_rms_nonneg)
    moreover from that have "r \<le> ?M" by simp
    ultimately show ?thesis using pos by (simp add: divide_le_eq)
  qed
  have Min: "?M \<in> set ?rms" using rne by (intro Max_in) simp_all
  have "Max (set ?vals) = 100"
  proof (rule Max_eqI)
    show "finite (set ?vals)" by simp
    show "y \<le> 100" if "y \<in> set ?vals" for y using that bound by auto
    from pos have "?M / ?M * 100 = 100" by simp
    with Min show "100 \<in> set ?vals" by (auto simp add: image_iff intro!: bexI [of _ ?M])
  qed
  with eq bound show ?thesis by auto
qed

theorem extract_intensity_normalized_witness:
  "[[0, 0], [2, 2], [1, 1 :: real]] \<noteq> [] \<and> 0 < Max (set (librosa_rms [[0, 0], [2, 2], [1, 1]]))
   \<and> extract_intensity [[0, 0], [2, 2], [1, 1]] = Inr [Finite 0, Finite 100, Finite 50]"
proof -
  have rms: "librosa_rms [[0, 0], [2, 2], [1, 1]] = [0, 2, 1]"
    by (simp add: librosa_rms_def frame_rms_def np_mean_def)
  have ne: "[[0, 0], [2, 2], [1, 1 :: real]] \<noteq> []" by simp
  have pos: "0 < Max (set (librosa_rms [[0, 0], [2, 2], [1, 1]]))" by (simp add: rms)
  from extract_intensity_normalized [OF ne pos]
  have "extract_intensity [[0, 0], [2, 2], [1, 1]] = Inr [Finite 0, Finite 100, Finite 50]"
    by (auto simp add: rms)
  with ne pos show ?thesis by blast
qed

text \<open>
  Claim C10. When the largest frame RMS of the clip is zero, \<open>extract_intensity\<close>
  returns the RMS row as it is, without dividing: every value is 0 and none is NaN or
  infinite.
\<close>

theorem extract_intensity_silent:
  assumes ne: "frames \<noteq> []" and zero: "Max (set (librosa_rms frames)) = 0"
  shows "extract_intensity frames = Inr (map Finite (librosa_rms frames))
       \<and> (\<forall>v \<in> set (map Finite (librosa_rms frames)). v = Finite 0)
       \<and> (\<forall>v \<in> set (map Finite (librosa_rms frames)). is_finite v)"
proof -
  let ?rms = "librosa_rms frames"
  from ne have rne: "?rms \<noteq> []" by (simp add: librosa_rms_def)
  have eq: "extract_intensity frames = Inr (map Finite ?rms)"
    using rne zero by (simp add: extract_intensity_def Let_def)
  have "r = 0" if "r \<in> set ?rms" for r
  proof -
    from that have "r \<le> Max (set ?rms)" by simp
    with zero librosa_rms_nonneg [OF that] show ?thesis by simp
  qed
  with eq show ?thesis by auto
qed

theorem extract_intensity_silent_witness:
  "[[0, 0, 0], [0, 0, 0 :: real]] \<noteq> [] \<and> Max (set (librosa_rms [[0, 0, 0], [0, 0, 0]])) = 0
   \<and> extract_intensity [[0, 0, 0], [0, 0, 0]] = Inr [Finite 0, Finite 0]"
proof -
  have rms: "librosa_rms [[0, 0, 0], [0, 0, 0]] = [0, 0]"
    by (simp add: librosa_rms_def frame_rms_def np_mean_def)
  have ne: "[[0, 0, 0], [0, 0, 0 :: real]] \<noteq> []" by simp
  have zero: "Max (set (librosa_rms [[0, 0, 0], [0, 0, 0]])) = 0" by (simp add: rms)
  from extract_intensity_silent [OF ne zero]
  have "extract_intensity [[0, 0, 0], [0, 0, 0]] = Inr [Finite 0, Finite 0]"
    by (simp add: rms)
  with ne zero show ?thesis by blast
qed

lemma pow10_in_range:
  fixes target_db :: real
  assumes "target_db \<le> 6160"
  shows "10 powr (target_db / 20) < 2 ^ 1024 - 2 ^ 970"
proof -
  from assms have "target_db / 20 \<le> 308" by simp
  then have "(10::real) powr (target_db / 20) \<le> 10 powr 308" by (rule powr_mono) simp
  also have "\<dots> = 10 ^ 308" by simp
  also have "\<dots> < 2 ^ 1024 - 2 ^ 970" by simp
  finally show ?thesis .
qed

lemma pow10_overflow:
  fixes target_db :: real
  assumes "6180 \<le> target_db"
  shows "2 ^ 1024 - 2 ^ 970 \<le> 10 powr (target_db / 20)"
proof -
  have "(2::real) ^ 1024 - 2 ^ 970 \<le> 10 ^ 309" by simp
  also have "\<dots> = 10 powr 309" by simp
  also have "(10::real) powr 309 \<le> 10 powr (target_db / 20)"
  proof (rule powr_mono)
    from assms show "309 \<le> target_db / 20" by simp
    show "(1::real) \<le> 10" by simp
  qed
  finally show ?thesis .
qed

text \<open>
  Claim C7, as the code has it. \<open>normalize_audio\<close> computes the RMS of the clip, which
  is never negative, and the target RMS \<open>10 ^ (target_db / 20)\<close>. When that power is in
  the range of a float (as it is for every \<open>target_db\<close> up to 6160) every sample is
  multiplied by the one factor \<open>target_rms / rms\<close> if the RMS is positive, and the
  samples are returned unchanged if it is zero. When the power is out of range (as it is
  for every \<open>target_db\<close> from 6180 on) the call raises \<open>OverflowError\<close> and returns
  no samples, whatever the clip. The result depends on the two arguments only.
\<close>

theorem normalize_audio_gain:
  "0 \<le> sqrt (np_mean (map (\<lambda>x. x\<^sup>2) audio))
   \<and> (10 powr (target_db / 20) < 2 ^ 1024 - 2 ^ 970 \<longrightarrow>
        (0 < sqrt (np_mean (map (\<lambda>x. x\<^sup>2) audio)) \<longrightarrow>
           normalize_audio audio target_db =
             Inr (map (\<lambda>x. x * (10 powr (target_db / 20) / sqrt (np_mean (map (\<lambda>x. x\<^sup>2) audio)))) audio))
      \<and> (sqrt (np_mean (map (\<lambda>x. x\<^sup>2) audio)) = 0 \<longrightarrow>
           normalize_audio audio target_db = Inr audio))
   \<and> (2 ^ 1024 - 2 ^ 970 \<le> 10 powr (target_db / 20) \<longrightarrow>
        normalize_audio audio target_db = Inl OverflowError)
   \<and> (target_db \<le> 6160 \<longrightarrow> 10 powr (target_db / 20) < 2 ^ 1024 - 2 ^ 970)
   \<and> (6180 \<le> target_db \<longrightarrow> 2 ^ 1024 - 2 ^ 970 \<le> 10 powr (target_db / 20))"
proof -
  have c1: "0 \<le> sqrt (np_mean (map (\<lambda>x. x\<^sup>2) audio))"
    using np_mean_squares_nonneg [of audio] by simp
  have c2: "10 powr (target_db / 20) < 2 ^ 1024 - 2 ^ 970 \<longrightarrow>
        (0 < sqrt (np_mean (map (\<lambda>x. x\<^sup>2) audio)) \<longrightarrow>
           normalize_audio audio target_db =
             Inr (map (\<lambda>x. x * (10 powr (target_db / 20) / sqrt (np_mean (map (\<lambda>x. x\<^sup>2) audio)))) audio))
      \<and> (sqrt (np_mean (map (\<lambda>x. x\<^sup>2) audio)) = 0 \<longrightarrow>
           normalize_audio audio target_db = Inr audio)"
    by (simp add: normalize_audio_def py_pow10_def Let_def)
  have c3: "2 ^ 1024 - 2 ^ 970 \<le> 10 powr (target_db / 20) \<longrightarrow>
        normalize_audio audio target_db = Inl OverflowError"
    by (simp add: normalize_audio_def py_pow10_def Let_def)
  have c4: "target_db \<le> 6160 \<longrightarrow> 10 powr (target_db / 20) < 2 ^ 1024 - 2 ^ 970"
    using pow10_in_range by blast
  have c5: "6180 \<le> target_db \<longrightarrow> 2 ^ 1024 - 2 ^ 970 \<le> 10 powr (target_db / 20)"
    using pow10_overflow by blast
  show ?thesis by (intro conjI; fact c1 c2 c3 c4 c5)
qed

theorem normalize_audio_gain_witness:
  "0 < sqrt (np_mean (map (\<lambda>x. x\<^sup>2) [2, -2]))
   \<and> (20::real) \<le> 6160 \<and> (6180::real) \<le> 8000
   \<and> normalize_audio [2, -2] 20 = Inr [10, -10]
   \<and> sqrt (np_mean (map (\<lambda>x. x\<^sup>2) [0, 0])) = 0
   \<and> normalize_audio [0, 0] 20 = Inr [0, 0]
   \<and> normalize_audio [2, -2] 8000 = Inl OverflowError"
proof -
  have a: "sqrt (np_mean (map (\<lambda>x. x\<^sup>2) [2, -2])) = 2" by (simp add: np_mean_def)
  have b: "sqrt (np_mean (map (\<lambda>x. x\<^sup>2) [0, 0])) = 0" by (simp add: np_mean_def)
  have d1: "(20::real) \<le> 6160" and d3: "(6180::real) \<le> 8000" by simp_all
  from a have a': "0 < sqrt (np_mean (map (\<lambda>x. x\<^sup>2) [2, -2]))" by (simp only:)
  from normalize_audio_gain [of "[2, -2]" 20] d1 a'
  have "normalize_audio [2, -2] 20 =
      Inr (map (\<lambda>x. x * (10 powr (20 / 20) / sqrt (np_mean (map (\<lambda>x. x\<^sup>2) [2, -2])))) [2, -2])"
    by blast
  then have e1: "normalize_audio [2, -2] 20 = Inr [10, -10]" by (simp only: a) simp
  from normalize_audio_gain [of "[0, 0]" 20] d1 b
  have e2: "normalize_audio [0, 0] 20 = Inr [0, 0]" by blast
  from normalize_audio_gain [of "[2, -2]" 8000] d3
  have e3: "normalize_audio [2, -2] 8000 = Inl OverflowError" by blast
  show ?thesis by (intro conjI; fact a' d1 d3 e1 e2 e3 b)
qed

text \<open>
  Claim C7 as the spec words it fails: for \<open>target_db = 8000\<close> the power
  \<open>10 ** 400.0\<close> raises \<open>OverflowError\<close>, so a clip of positive RMS is not returned
  scaled and a silent clip is not returned unchanged.
\<close>

theorem normalize_audio_overflow_counterexample:
  "0 < sqrt (np_mean (map (\<lambda>x. x\<^sup>2) [1]))
   \<and> normalize_audio [1] 8000 = Inl OverflowError
   \<and> normalize_audio [1] 8000 \<noteq>
       Inr (map (\<lambda>x. x * (10 powr (8000 / 20) / sqrt (np_mean (map (\<lambda>x. x\<^sup>2) [1])))) [1])
   \<and> sqrt (np_mean (map (\<lambda>x. x\<^sup>2) [0])) = 0
   \<and> normalize_audio [0] 8000 = Inl OverflowError
   \<and> normalize_audio [0] 8000 \<noteq> Inr [0]"
proof -
  have p: "(10::real) powr (8000 / 20) = 10 ^ 400" by simp
  have o: "py_pow10 (8000 / 20) = Inl OverflowError" unfolding py_pow10_def p by simp
  have "normalize_audio [1] 8000 = Inl OverflowError" "normalize_audio [0] 8000 = Inl OverflowError"
    unfolding normalize_audio_def o by simp_all
  then show ?thesis by (simp add: np_mean_def)
qed

text \<open>
  Claim C9. For a positive sample rate the duration is the number of samples divided by
  the sample rate, and it is not negative.
\<close>

theorem get_duration_exact:
  assumes "0 < sample_rate self"
  shows "get_duration self audio = Inr (real (length audio) / real_of_int (sample_rate self))
       \<and> 0 \<le> real (length audio) / real_of_int (sample_rate self)"
  using assms by (simp add: get_duration_def py_truediv_def)

theorem get_duration_exact_witness:
  "0 < sample_rate AudioProcessor
   \<and> get_duration AudioProcessor (replicate 8000 0) = Inr (1 / 2)"
proof -
  have sr: "0 < sample_rate AudioProcessor" by (simp add: AudioProcessor_def)
  from get_duration_exact [OF sr, of "replicate 8000 0"]
  have "get_duration AudioProcessor (replicate 8000 0) = Inr (1 / 2)"
    by (simp add: AudioProcessor_def)
  with sr show ?thesis by simp
qed

section \<open>Properties of loading and of emphasis detection\<close>

lemma load_audio_cleans_up:
  assumes "librosa_load env file_path = Inl e"
    and "from_file env file_path = Inr audio_segment"
    and "tmp_file env = Inr tmp_path"
    and "segment_export env audio_segment tmp_path = Inr u"
    and "tmp_path \<notin> files"
  shows "load_audio env file_path files = (librosa_load env tmp_path, files)"
  using assms by (simp add: load_audio_def Let_def)

text \<open>
  Claim C8 does not hold on one exit of the fallback path. When the first decoding
  fails, pydub reads the file and the temporary file is created, but writing the wav
  data into it fails, \<open>load_audio\<close> ends with that error and the temporary file is still
  there: the export is not inside the \<open>try ... finally\<close> that removes the file. (When
  the export succeeds the file is removed, whether the second decoding succeeds or
  fails: lemma \<open>load_audio_cleans_up\<close>.)
\<close>

theorem load_audio_export_failure_leaks:
  "load_audio
     \<lparr>librosa_load = (\<lambda>p. Inl DecodeError), from_file = (\<lambda>p. Inr (0 :: nat)),
      tmp_file = Inr ''/tmp/tmpx1.wav'', segment_export = (\<lambda>s p. Inl IOError)\<rparr>
     ''/tmp/upload.m4a'' {''/tmp/upload.m4a''}
   = (Inl IOError, {''/tmp/tmpx1.wav'', ''/tmp/upload.m4a''})"
  by (simp add: load_audio_def Let_def insert_commute)

text \<open>
  Claim C1 does not hold on the analyzer that \<open>SpeechAnalyzer()\<close> constructs:
  \<open>analyze_emphasis\<close> reads \<open>self.audio_processor\<close>, which nothing assigns, and raises
  \<open>AttributeError\<close> for every clip and duration. (With a processor attached the steps
  after that line do what the claim says: lemmas \<open>analyze_emphasis_with_processor\<close>,
  \<open>emphasis_points_above_threshold\<close> and \<open>emphasis_flat_curve\<close>.)
\<close>

theorem analyze_emphasis_attribute_error:
  "analyze_emphasis SpeechAnalyzer frames duration = Inl AttributeError"
  by (simp add: analyze_emphasis_def SpeechAnalyzer_def)

lemma np_mean_constant:
  assumes "xs \<noteq> []" "\<forall>x \<in> set xs. x = c"
  shows "np_mean xs = c"
proof -
  from assms(2) have "xs = replicate (length xs) c"
    by (simp add: replicate_length_same)
  then have "sum_list xs = real (length xs) * c"
    by (metis sum_list_replicate)
  with assms(1) show ?thesis by (simp add: np_mean_def)
qed

lemma np_std_constant:
  assumes "xs \<noteq> []" "\<forall>x \<in> set xs. x = c"
  shows "np_std xs = 0"
proof -
  have m: "np_mean xs = c" using assms by (rule np_mean_constant)
  have "sum_list (map (\<lambda>x. (x - c)\<^sup>2) xs) = 0"
    using assms(2) by (induction xs) auto
  then have "np_mean (map (\<lambda>x. (x - c)\<^sup>2) xs) = 0"
    by (simp add: np_mean_def)
  with m show ?thesis by (simp add: np_std_def)
qed

lemma emphasis_flat_curve:
  assumes "\<forall>x \<in> set xs. x = c"
  shows "emphasis_from_intensity (map Finite xs) duration =
     [\<lparr>emphasis_point.time = duration / 2, intensity = 1 / 2\<rparr>]"
proof (cases "xs = []")
  case True
  then show ?thesis by (simp add: emphasis_from_intensity_def)
next
  case False
  have vals: "the_finite \<circ> Finite = (\<lambda>x. x)" by (simp add: fun_eq_iff)
  have thr: "np_mean xs + np_std xs = c"
    using np_mean_constant [OF False assms] np_std_constant [OF False assms] by simp
  have "filter (\<lambda>(t, intens). c < intens) (zip ts xs) = []" for ts :: "real list"
    using assms by (auto simp add: filter_empty_conv dest: set_zip_rightD)
  then show ?thesis
    by (simp add: emphasis_from_intensity_def Let_def vals thr)
qed

lemma emphasis_points_above_threshold:
  assumes "xs \<noteq> []"
  shows "emphasis_from_intensity (map Finite xs) duration =
     (let pts = map (\<lambda>(t, x). \<lparr>emphasis_point.time = t, intensity = x / 100\<rparr>)
                  (filter (\<lambda>(t, x). np_mean xs + np_std xs < x)
                     (zip (np_linspace 0 duration (length xs)) xs))
      in if pts = [] then [\<lparr>emphasis_point.time = duration / 2, intensity = 1 / 2\<rparr>] else pts)"
proof -
  have vals: "the_finite \<circ> Finite = (\<lambda>x. x)" by (simp add: fun_eq_iff)
  have fin: "list_all is_finite (map Finite xs)" by (simp add: list_all_iff)
  show ?thesis
    using assms by (simp add: emphasis_from_intensity_def Let_def vals fin)
qed

lemma analyze_emphasis_with_processor:
  assumes "audio_processor self = Some processor"
  shows "analyze_emphasis self frames duration =
     (case extract_intensity frames of
        Inl e \<Rightarrow> Inl e
      | Inr curve \<Rightarrow> Inr (emphasis_from_intensity curve duration))"
  using assms by (simp add: analyze_emphasis_def)

lemma emphasis_spike_example:
  "emphasis_from_intensity [Finite 10, Finite 10, Finite 100, Finite 10, Finite 10] 8 =
     [\<lparr>emphasis_point.time = 4, intensity = 1\<rparr>]"
proof -
  have s: "sqrt 1296 = 36" by (rule real_sqrt_unique) simp_all
  have m: "np_mean [10, 10, 100, 10, 10] = 28" by (simp add: np_mean_def)
  have sd: "np_std [10, 10, 100, 10, 10] = 36" by (simp add: np_std_def m) (simp add: np_mean_def s)
  have ts: "np_linspace 0 8 (Suc (Suc (Suc (Suc (Suc 0))))) = [0, 2, 4, 6, 8]"
    by (simp add: np_linspace_def upt_conv_Cons)
  show ?thesis
    by (simp add: emphasis_from_intensity_def Let_def m sd ts)
qed

end
